theory Spec2Isabelle
  imports Complex_Main "HOL-Library.Sublist" "HOL-Library.Log_Nat" "HOL-Library.Monad_Syntax"
begin

section \<open>Python values used by \<open>stream.py\<close>\<close>

text \<open>
  A Python \<open>str\<close> is a sequence of Unicode code points; a code point is a natural
  number. \<open>ustr\<close> reads an ASCII literal of the source as such a sequence.
\<close>

type_synonym pystr = "nat list"

definition ustr :: "string \<Rightarrow> pystr" where
  "ustr s = map of_char s"

datatype py_error = ZeroDivisionError | OverflowError

text \<open>
  The code points for which \<open>str.isspace\<close>, \<open>str.strip\<close> and the regular expression
  class \<open>\s\<close> agree that they are whitespace (CPython's \<open>Py_UNICODE_ISSPACE\<close>).
\<close>

definition is_space :: "nat \<Rightarrow> bool" where
  "is_space c \<longleftrightarrow>
     (9 \<le> c \<and> c \<le> 13) \<or> (28 \<le> c \<and> c \<le> 32) \<or> c = 133 \<or> c = 160 \<or> c = 5760 \<or>
     (8192 \<le> c \<and> c \<le> 8202) \<or> c = 8232 \<or> c = 8233 \<or> c = 8239 \<or> c = 8287 \<or> c = 12288"

text \<open>\<open>s.strip()\<close>: whitespace removed at both ends.\<close>

definition py_strip :: "pystr \<Rightarrow> pystr" where
  "py_strip s = rev (dropWhile is_space (rev (dropWhile is_space s)))"

text \<open>\<open>s.isspace()\<close>: at least one character, and all of them whitespace.\<close>

definition py_isspace :: "pystr \<Rightarrow> bool" where
  "py_isspace s \<longleftrightarrow> s \<noteq> [] \<and> list_all is_space s"

text \<open>
  \<open>s.lower()\<close>. The ASCII capitals go to their small letters. Exactly two code points
  beyond ASCII have a lower-case form that contains an ASCII letter: U+0130 (to \<open>i\<close>
  followed by U+0307) and U+212A, the Kelvin sign (to \<open>k\<close>). Every other cased code point
  beyond ASCII goes to a single code point beyond ASCII; the model leaves those as they
  are, which no comparison against an ASCII keyword can tell apart. Caseless code points,
  the Bangla block among them, are unchanged.
\<close>

definition py_lower_char :: "nat \<Rightarrow> pystr" where
  "py_lower_char c =
     (if 65 \<le> c \<and> c \<le> 90 then [c + 32]
      else if c = 304 then [105, 775]
      else if c = 8490 then [107]
      else [c])"

definition py_lower :: "pystr \<Rightarrow> pystr" where
  "py_lower s = concat (map py_lower_char s)"

text \<open>
  \<open>str.isdecimal\<close> and the class \<open>\d\<close> of a \<open>str\<close> pattern: the ASCII digits and the
  decimal digits of the other scripts (general category Nd; the table of Unicode 14.0,
  each entry the first code point of a run of ten, and the mathematical digits
  U+1D7CE to U+1D7FF).
\<close>

definition decimal_blocks :: "nat list" where
  "decimal_blocks =
     [0x660, 0x6F0, 0x7C0, 0x966, 0x9E6, 0xA66, 0xAE6, 0xB66, 0xBE6, 0xC66, 0xCE6, 0xD66,
      0xDE6, 0xE50, 0xED0, 0xF20, 0x1040, 0x1090, 0x17E0, 0x1810, 0x1946, 0x19D0, 0x1A80,
      0x1A90, 0x1B50, 0x1BB0, 0x1C40, 0x1C50, 0xA620, 0xA8D0, 0xA900, 0xA9D0, 0xA9F0,
      0xAA50, 0xABF0, 0xFF10, 0x104A0, 0x10D30, 0x11066, 0x110F0, 0x11136, 0x111D0,
      0x112F0, 0x11450, 0x114D0, 0x11650, 0x116C0, 0x11730, 0x118E0, 0x11950, 0x11C50,
      0x11D50, 0x11DA0, 0x16A60, 0x16AC0, 0x16B50, 0x1E140, 0x1E2F0, 0x1E950, 0x1FBF0]"

definition is_decimal :: "nat \<Rightarrow> bool" where
  "is_decimal c \<longleftrightarrow>
     (48 \<le> c \<and> c \<le> 57) \<or> list_ex (\<lambda>s. s \<le> c \<and> c < s + 10) decimal_blocks \<or>
     (0x1D7CE \<le> c \<and> c \<le> 0x1D7FF)"

text \<open>
  \<open>s.split('\n')\<close>: the pieces between line feeds; never the empty list (the first
  branch of the \<open>case\<close> is there for totality only).
\<close>

fun split_nl :: "pystr \<Rightarrow> pystr list" where
  "split_nl [] = [[]]"
| "split_nl (c # cs) =
     (if c = 10 then [] # split_nl cs
      else case split_nl cs of [] \<Rightarrow> [[c]] | l # ls \<Rightarrow> (c # l) # ls)"

subsection \<open>True division of integers\<close>

text \<open>
  \<open>a / b\<close> on Python integers is the IEEE 754 binary64 number nearest to the exact
  quotient, ties to the even significand. A float is represented by the rational it
  denotes. \<open>binade a b\<close> is the exponent \<open>e\<close> with \<open>2^e \<le> a / b < 2^(e + 1)\<close>; the
  significand has 53 bits, and below \<open>2^-1022\<close> the spacing stays at \<open>2^-1074\<close>.
\<close>

definition round_half_even :: "rat \<Rightarrow> int" where
  "round_half_even x =
     (let f = \<lfloor>x\<rfloor>; d = x - of_int f
      in if d < 1 / 2 then f
         else if 1 / 2 < d then f + 1
         else if even f then f else f + 1)"

definition binade :: "int \<Rightarrow> int \<Rightarrow> int" where
  "binade a b =
     (let k = bitlen a - bitlen b
      in if 2 powi k * of_int b \<le> (of_int a :: rat) then k else k - 1)"

definition round_binary64 :: "int \<Rightarrow> int \<Rightarrow> rat" where
  "round_binary64 a b =
     (if a = 0 then 0
      else let p = max (binade a b - 52) (- 1074)
           in of_int (round_half_even (of_int a / of_int b / 2 powi p)) * 2 powi p)"

definition py_truediv :: "int \<Rightarrow> int \<Rightarrow> py_error + rat" where
  "py_truediv a b =
     (if b = 0 then Inl ZeroDivisionError
      else let r = round_binary64 \<bar>a\<bar> \<bar>b\<bar>
           in if 2 ^ 1024 \<le> r then Inl OverflowError
              else Inr (of_int (sgn a * sgn b) * r))"

section \<open>The script classifier: \<open>is_bangla_text\<close>\<close>

definition system_keywords :: "pystr list" where
  "system_keywords =
     [ustr ''Messages and calls are end-to-end encrypted'',
      ustr ''created group'',
      ustr ''were added'',
      ustr ''left'',
      ustr ''changed'',
      ustr ''<Media omitted>'',
      ustr ''Waiting for this message'',
      ustr ''This message was deleted'',
      ustr ''changed to'']"

text \<open>
  The characters of the literal the loop tests membership in: from the full stop to the
  slash, then backslash (92), then \<open>|<>~\<close>, then backtick (96), double quote (34) and
  single quote (39).
\<close>

definition skipped_punctuation :: "pystr" where
  "skipped_punctuation =
     ustr ''.,!?;:@#$%^&*()[]{}+-=/'' @ [92] @ ustr ''|<>~'' @ [96, 34, 39]"

text \<open>The condition of the loop body: the character counts towards \<open>total_chars\<close>.\<close>

definition countable_char :: "nat \<Rightarrow> bool" where
  "countable_char c \<longleftrightarrow>
     py_strip [c] \<noteq> [] \<and> \<not> py_isspace [c] \<and> c \<notin> set skipped_punctuation"

definition bangla_char :: "nat \<Rightarrow> bool" where
  "bangla_char c \<longleftrightarrow> 0x980 \<le> c \<and> c \<le> 0x9FF"

text \<open>One turn of the loop over the characters; the state is \<open>(bangla_chars, total_chars)\<close>.\<close>

definition count_step :: "int \<times> int \<Rightarrow> nat \<Rightarrow> int \<times> int" where
  "count_step s c =
     (if countable_char c
      then (if bangla_char c then (fst s + 1, snd s + 1) else (fst s, snd s + 1))
      else s)"

definition count_chars :: "pystr \<Rightarrow> int \<times> int" where
  "count_chars text = foldl count_step (0, 0) text"

definition has_system_keyword :: "pystr \<Rightarrow> bool" where
  "has_system_keyword text \<longleftrightarrow>
     list_ex (\<lambda>keyword. sublist (py_lower keyword) (py_lower text)) system_keywords"

definition is_bangla_text :: "pystr \<Rightarrow> py_error + bool" where
  "is_bangla_text text =
     (if text = [] \<or> length (py_strip text) = 0 then Inr False
      else if has_system_keyword text then Inr False
      else let bangla_chars = fst (count_chars text); total_chars = snd (count_chars text)
           in if total_chars = 0 then Inr False
              else case py_truediv bangla_chars total_chars of
                     Inl e \<Rightarrow> Inl e
                   | Inr q \<Rightarrow> Inr (1 / 4 \<le> q))"

section \<open>The chat parser: \<open>parse_whatsapp_chat\<close>\<close>

record message =
  date :: pystr
  time :: pystr
  sender :: pystr
  message :: pystr

subsection \<open>The header pattern\<close>

text \<open>
  \<open>re.match\<close> of the pattern
  \<^verbatim>\<open>^(\d{1,2}/\d{1,2}/\d{4}),\s+(\d{1,2}:\d{2}\s*(?:am|pm))\s*-\s*([^:]+):\s*(.*)$\<close>
  under \<open>re.IGNORECASE\<close>, piece by piece from the left. Each piece is followed by a
  character it cannot itself match, so the greedy choice is the only one that can
  succeed, except where noted.
\<close>

text \<open>\<open>\d{1,2}\<close>, followed in the pattern by a literal that is no digit.\<close>

fun re_digits12 :: "pystr \<Rightarrow> (pystr \<times> pystr) option" where
  "re_digits12 (a # b # r) =
     (if is_decimal a \<and> is_decimal b then Some ([a, b], r)
      else if is_decimal a then Some ([a], b # r)
      else None)"
| "re_digits12 [a] = (if is_decimal a then Some ([a], []) else None)"
| "re_digits12 [] = None"

text \<open>\<open>\d{n}\<close>.\<close>

definition re_digits :: "nat \<Rightarrow> pystr \<Rightarrow> (pystr \<times> pystr) option" where
  "re_digits n xs =
     (if n \<le> length xs \<and> list_all is_decimal (take n xs) then Some (take n xs, drop n xs)
      else None)"

text \<open>A literal character.\<close>

definition re_lit :: "nat \<Rightarrow> pystr \<Rightarrow> pystr option" where
  "re_lit c xs = (case xs of [] \<Rightarrow> None | x # r \<Rightarrow> if x = c then Some r else None)"

text \<open>\<open>\s+\<close>, followed in the pattern by a digit.\<close>

definition re_spaces1 :: "pystr \<Rightarrow> pystr option" where
  "re_spaces1 xs = (if takeWhile is_space xs = [] then None else Some (dropWhile is_space xs))"

text \<open>
  \<open>(?:am|pm)\<close>, ignoring case: \<open>a\<close>, \<open>A\<close>, \<open>p\<close> or \<open>P\<close>, then \<open>m\<close> or \<open>M\<close>; no other code
  point has one of these three letters as its lower case.
\<close>

definition re_ampm :: "pystr \<Rightarrow> (pystr \<times> pystr) option" where
  "re_ampm xs =
     (case xs of
        a # m # r \<Rightarrow>
          if (a = 97 \<or> a = 65 \<or> a = 112 \<or> a = 80) \<and> (m = 109 \<or> m = 77) then Some ([a, m], r)
          else None
      | _ \<Rightarrow> None)"

text \<open>
  \<open>\s*([^:]+):\<close> on what follows the hyphen. \<open>[^:]+\<close> has to end at the first colon, so
  the part up to that colon must not be empty; \<open>\s*\<close> takes its leading whitespace, but
  leaves the last character to the group when the part is whitespace only.
\<close>

definition re_sender :: "pystr \<Rightarrow> (pystr \<times> pystr) option" where
  "re_sender xs =
     (let seg = takeWhile (\<lambda>c. c \<noteq> 58) xs; r = dropWhile (\<lambda>c. c \<noteq> 58) xs
      in if seg = [] \<or> r = [] then None
         else Some (if dropWhile is_space seg = [] then [last seg] else dropWhile is_space seg,
                    tl r))"

text \<open>
  \<open>\s*(.*)$\<close> on what follows that colon: \<open>.\<close> matches anything but a line feed, and
  \<open>$\<close> matches at the end or before a line feed that ends the string.
\<close>

definition re_body :: "pystr \<Rightarrow> pystr option" where
  "re_body xs =
     (let b = dropWhile is_space xs
      in if 10 \<in> set (butlast b) then None
         else Some (if b \<noteq> [] \<and> last b = 10 then butlast b else b))"

text \<open>The match as a whole: groups 1 to 4, or \<open>None\<close>.\<close>

definition re_match_header :: "pystr \<Rightarrow> (pystr \<times> pystr \<times> pystr \<times> pystr) option" where
  "re_match_header line =
     do {
       (d, r1) \<leftarrow> re_digits12 line;
       r2 \<leftarrow> re_lit 47 r1;
       (m, r3) \<leftarrow> re_digits12 r2;
       r4 \<leftarrow> re_lit 47 r3;
       (y, r5) \<leftarrow> re_digits 4 r4;
       r6 \<leftarrow> re_lit 44 r5;
       r7 \<leftarrow> re_spaces1 r6;
       (h, r8) \<leftarrow> re_digits12 r7;
       r9 \<leftarrow> re_lit 58 r8;
       (mi, r10) \<leftarrow> re_digits 2 r9;
       (ap, r11) \<leftarrow> re_ampm (dropWhile is_space r10);
       r12 \<leftarrow> re_lit 45 (dropWhile is_space r11);
       (g3, r13) \<leftarrow> re_sender r12;
       g4 \<leftarrow> re_body r13;
       Some (d @ [47] @ m @ [47] @ y, h @ [58] @ mi @ takeWhile is_space r10 @ ap, g3, g4)
     }"

subsection \<open>The scan over the lines\<close>

text \<open>
  The state of the loop is \<open>(messages, current_msg)\<close>. A dictionary with four keys is
  true, so \<open>if current_msg\<close> asks whether it is not \<open>None\<close>.
\<close>

definition parse_step ::
  "message list \<times> message option \<Rightarrow> pystr \<Rightarrow> message list \<times> message option" where
  "parse_step s line =
     (case re_match_header line of
        Some (g1, g2, g3, g4) \<Rightarrow>
          ((case snd s of Some cur \<Rightarrow> fst s @ [cur] | None \<Rightarrow> fst s),
           Some \<lparr>date = g1, time = g2, sender = py_strip g3, message = py_strip g4\<rparr>)
      | None \<Rightarrow>
          (case snd s of
             Some cur \<Rightarrow>
               if py_strip line \<noteq> []
               then (fst s, Some (cur\<lparr>message := message cur @ [10] @ py_strip line\<rparr>))
               else s
           | None \<Rightarrow> s))"

text \<open>After the loop: the message under construction, if any, is the last one.\<close>

definition parse_finish :: "message list \<times> message option \<Rightarrow> message list" where
  "parse_finish s = (case snd s of Some cur \<Rightarrow> fst s @ [cur] | None \<Rightarrow> fst s)"

text \<open>
  The function as a whole. None of its operations (\<open>split\<close>, \<open>re.match\<close>, \<open>group\<close>,
  \<open>strip\<close>, string concatenation, \<open>append\<close>) can raise on a \<open>str\<close>, so the result
  is a plain list.
\<close>

definition parse_lines :: "pystr list \<Rightarrow> message list" where
  "parse_lines lines = parse_finish (foldl parse_step ([], None) lines)"

definition parse_whatsapp_chat :: "pystr \<Rightarrow> message list" where
  "parse_whatsapp_chat chat_text = parse_lines (split_nl chat_text)"

section \<open>The filter: \<open>filter_bangla_messages\<close>\<close>

fun filter_loop :: "message list \<Rightarrow> message list \<Rightarrow> py_error + message list" where
  "filter_loop bangla_messages [] = Inr bangla_messages"
| "filter_loop bangla_messages (msg # msgs) =
     (case is_bangla_text (message msg) of
        Inl e \<Rightarrow> Inl e
      | Inr b \<Rightarrow> filter_loop (if b then bangla_messages @ [msg] else bangla_messages) msgs)"

definition filter_bangla_messages :: "message list \<Rightarrow> py_error + message list" where
  "filter_bangla_messages messages = filter_loop [] messages"

section \<open>Notions used to state the properties\<close>

text \<open>
  The message a header line starts: the dictionary built from the four groups of the
  match.
\<close>

definition header_message :: "pystr \<Rightarrow> message option" where
  "header_message line =
     map_option (\<lambda>(g1, g2, g3, g4).
       \<lparr>date = g1, time = g2, sender = py_strip g3, message = py_strip g4\<rparr>)
       (re_match_header line)"

definition is_header :: "pystr \<Rightarrow> bool" where
  "is_header line \<longleftrightarrow> re_match_header line \<noteq> None"

text \<open>
  The scan started with a given message under construction instead of \<open>None\<close>, and
  what \<open>parse_finish\<close> makes of the slot alone.
\<close>

definition parse_from :: "message option \<Rightarrow> pystr list \<Rightarrow> message list" where
  "parse_from cur lines = parse_finish (foldl parse_step ([], cur) lines)"

definition open_message :: "message option \<Rightarrow> message list" where
  "open_message cur = (case cur of None \<Rightarrow> [] | Some c \<Rightarrow> [c])"

text \<open>
  What a run of lines that are no headers adds to the text of the message under
  construction: for each line that is not blank, a line feed and the trimmed line.
\<close>

definition continuation_text :: "pystr list \<Rightarrow> pystr" where
  "continuation_text conts =
     concat (map (\<lambda>l. [10] @ py_strip l) (filter (\<lambda>l. py_strip l \<noteq> []) conts))"

text \<open>
  A message belongs to a header line: date, time and sender are those of the line, and
  the text begins with the text of the line.
\<close>

definition started_by :: "message \<Rightarrow> pystr \<Rightarrow> bool" where
  "started_by m line =
     (case header_message line of
        None \<Rightarrow> False
      | Some c \<Rightarrow> date m = date c \<and> time m = time c \<and> sender m = sender c \<and>
          prefix (message c) (message m))"

text \<open>
  The remainder of a line after the first colon that follows the sender, the sender
  being what follows the first hyphen of the line.
\<close>

definition text_after_sender :: "pystr \<Rightarrow> pystr" where
  "text_after_sender line =
     tl (dropWhile (\<lambda>c. c \<noteq> 58) (tl (dropWhile (\<lambda>c. c \<noteq> 45) line)))"

text \<open>
  A text of \<open>2^52\<close> Bangla letters (U+0995) followed by \<open>3 * 2^52 + 1\<close> letters \<open>x\<close>.
\<close>

definition big_text :: pystr where
  "big_text = replicate (2 ^ 52) 2453 @ replicate (3 * 2 ^ 52 + 1) 120"

subsection \<open>Regular expressions\<close>

text \<open>
  Regular expressions over code points with character classes as atoms, their language,
  and a matcher by derivatives: \<open>rexp_matches r w\<close> holds exactly when all of \<open>w\<close> is
  in the language of \<open>r\<close>.
\<close>

datatype rexp =
  Zero | One | Atom "nat \<Rightarrow> bool" | Plus rexp rexp | Times rexp rexp | Star rexp

fun lang :: "rexp \<Rightarrow> pystr set" where
  "lang Zero = {}"
| "lang One = {[]}"
| "lang (Atom P) = {[c] | c. P c}"
| "lang (Plus r s) = lang r \<union> lang s"
| "lang (Times r s) = {u @ v | u v. u \<in> lang r \<and> v \<in> lang s}"
| "lang (Star r) = {concat ws | ws. set ws \<subseteq> lang r}"

fun nullable :: "rexp \<Rightarrow> bool" where
  "nullable Zero = False"
| "nullable One = True"
| "nullable (Atom P) = False"
| "nullable (Plus r s) = (nullable r \<or> nullable s)"
| "nullable (Times r s) = (nullable r \<and> nullable s)"
| "nullable (Star r) = True"

fun deriv :: "nat \<Rightarrow> rexp \<Rightarrow> rexp" where
  "deriv c Zero = Zero"
| "deriv c One = Zero"
| "deriv c (Atom P) = (if P c then One else Zero)"
| "deriv c (Plus r s) = Plus (deriv c r) (deriv c s)"
| "deriv c (Times r s) =
     (if nullable r then Plus (Times (deriv c r) s) (deriv c s) else Times (deriv c r) s)"
| "deriv c (Star r) = Times (deriv c r) (Star r)"

definition rexp_matches :: "rexp \<Rightarrow> pystr \<Rightarrow> bool" where
  "rexp_matches r w = nullable (foldl (\<lambda>r c. deriv c r) r w)"

text \<open>
  The header grammar: the pattern of the source written as a regular expression, item
  by item. \<open>\d{1,2}\<close> is a digit and an optional digit; under \<open>re.IGNORECASE\<close> the
  letters of \<open>am\<close> and \<open>pm\<close> match in either case; \<open>.\<close> is any character but a line
  feed; the final \<open>$\<close> allows one line feed before the end.
\<close>

definition seq :: "rexp list \<Rightarrow> rexp" where
  "seq rs = foldr Times rs One"

definition opt :: "rexp \<Rightarrow> rexp" where
  "opt r = Plus One r"

definition plus1 :: "rexp \<Rightarrow> rexp" where
  "plus1 r = Times r (Star r)"

definition lit :: "nat \<Rightarrow> rexp" where
  "lit c = Atom (\<lambda>x. x = c)"

definition either :: "nat \<Rightarrow> nat \<Rightarrow> rexp" where
  "either a b = Atom (\<lambda>x. x = a \<or> x = b)"

definition rx_digit :: rexp where
  "rx_digit = Atom is_decimal"

definition rx_space :: rexp where
  "rx_space = Atom is_space"

definition rx_ampm :: rexp where
  "rx_ampm = Plus (Times (either 97 65) (either 109 77)) (Times (either 112 80) (either 109 77))"

definition header_rexp :: rexp where
  "header_rexp =
     seq [rx_digit, opt rx_digit, lit 47, rx_digit, opt rx_digit, lit 47,
          rx_digit, rx_digit, rx_digit, rx_digit, lit 44, plus1 rx_space,
          rx_digit, opt rx_digit, lit 58, rx_digit, rx_digit, Star rx_space, rx_ampm,
          Star rx_space, lit 45, Star rx_space, plus1 (Atom (\<lambda>c. c \<noteq> 58)), lit 58,
          Star rx_space, Star (Atom (\<lambda>c. c \<noteq> 10)), opt (lit 10)]"

definition header_line :: "pystr \<Rightarrow> bool" where
  "header_line line \<longleftrightarrow> rexp_matches header_rexp line"

subsection \<open>Lines and fields\<close>

text \<open>
  A text is its lines joined by line feeds (\<open>'\n'.join\<close>).
\<close>

fun join_nl :: "pystr list \<Rightarrow> pystr" where
  "join_nl [] = []"
| "join_nl [l] = l"
| "join_nl (l # l' # ls) = l @ [10] @ join_nl (l' # ls)"

text \<open>
  The fields of a header line, read off the line itself: the date is what precedes the
  first comma, the time what lies between that comma and the first hyphen, the sender
  what lies between that hyphen and the next colon, the last two trimmed. A message
  belongs to a header line when it has these fields and its text begins with the trimmed
  remainder of the line.
\<close>

definition date_of :: "pystr \<Rightarrow> pystr" where
  "date_of line = takeWhile (\<lambda>c. c \<noteq> 44) line"

definition time_of :: "pystr \<Rightarrow> pystr" where
  "time_of line = py_strip (takeWhile (\<lambda>c. c \<noteq> 45) (tl (dropWhile (\<lambda>c. c \<noteq> 44) line)))"

definition sender_of :: "pystr \<Rightarrow> pystr" where
  "sender_of line = py_strip (takeWhile (\<lambda>c. c \<noteq> 58) (tl (dropWhile (\<lambda>c. c \<noteq> 45) line)))"

definition belongs_to :: "message \<Rightarrow> pystr \<Rightarrow> bool" where
  "belongs_to m line \<longleftrightarrow>
     date m = date_of line \<and> time m = time_of line \<and> sender m = sender_of line \<and>
     prefix (py_strip (text_after_sender line)) (message m)"

subsection \<open>Counting characters\<close>

text \<open>
  A countable character is one that is neither whitespace nor in the skipped
  punctuation; \<open>total_chars\<close> counts them, \<open>script_chars\<close> those of them in the Bangla
  block.
\<close>

definition spec_countable :: "nat \<Rightarrow> bool" where
  "spec_countable c \<longleftrightarrow> \<not> is_space c \<and> c \<notin> set skipped_punctuation"

definition total_chars :: "pystr \<Rightarrow> nat" where
  "total_chars text = length (filter spec_countable text)"

definition script_chars :: "pystr \<Rightarrow> nat" where
  "script_chars text = length (filter (\<lambda>c. spec_countable c \<and> bangla_char c) text)"

subsection \<open>Inputs\<close>

text \<open>Inputs at which the properties are evaluated.\<close>

definition scenario_text :: pystr where
  "scenario_text =
     ustr ''1/2/2024, 9:05 am - Alice: '' @ [0x9B9, 0x9CD, 0x9AF, 0x9BE, 0x9B2, 0x9CB] @ [10] @
     [0x995, 0x9C7, 0x9AE, 0x9A8, 32, 0x986, 0x99B, 0x9C7, 0x9A8] @ [10] @
     ustr ''2/2/2024, 9:06 am - Bob: hi''"

definition trailing_space_line :: pystr where
  "trailing_space_line = ustr ''1/2/2024, 9:05 am - Bob:  hi there  ''"

definition continuation_chat :: pystr where
  "continuation_chat =
     ustr ''1/2/2024, 9:05 am - Alice: one'' @ [10] @ ustr ''  two  '' @ [10] @ [10] @
     ustr ''three'' @ [10] @ ustr ''2/2/2024, 9:06 PM - Bob: four''"

definition banner_chat :: pystr where
  "banner_chat =
     ustr ''Chat export'' @ [10] @ ustr ''with Bob'' @ [10] @
     ustr ''2/2/2024, 9:06 PM - Bob: four''"

section \<open>Properties of the rounding\<close>

lemma round_half_even_ge: "of_int N \<le> x \<Longrightarrow> N \<le> round_half_even x"
proof -
  assume "of_int N \<le> x"
  then have "N \<le> \<lfloor>x\<rfloor>" by (simp add: le_floor_iff)
  then show ?thesis by (simp add: round_half_even_def Let_def)
qed

lemma round_half_even_le: "x \<le> of_int N \<Longrightarrow> round_half_even x \<le> N"
proof (cases "x = of_int N")
  case True
  then show ?thesis by (simp add: round_half_even_def Let_def)
next
  case False
  assume "x \<le> of_int N"
  with False have "x < of_int N" by simp
  then have "\<lfloor>x\<rfloor> < N" by (simp add: floor_less_iff)
  then show ?thesis by (simp add: round_half_even_def Let_def)
qed

lemma round_half_even_lt: "x < of_int N - 1 / 2 \<Longrightarrow> round_half_even x < N"
proof -
  assume h: "x < of_int N - 1 / 2"
  then have "x < of_int N" by simp
  then have f: "\<lfloor>x\<rfloor> < N" by (simp add: floor_less_iff)
  show ?thesis
  proof (cases "\<lfloor>x\<rfloor> + 1 < N")
    case True
    then show ?thesis by (simp add: round_half_even_def Let_def)
  next
    case False
    with f have e: "\<lfloor>x\<rfloor> = N - 1" by simp
    with h have "x - of_int \<lfloor>x\<rfloor> < 1 / 2" by simp
    then show ?thesis using f by (simp add: round_half_even_def Let_def)
  qed
qed

lemma of_int_bitlen_bounds:
  assumes "0 < a"
  shows "2 powi (bitlen a - 1) \<le> (of_int a :: rat)" and "(of_int a :: rat) < 2 powi (bitlen a)"
proof -
  from bitlen_bounds [OF assms]
  have l: "2 ^ nat (bitlen a - 1) \<le> a" and u: "a < 2 ^ nat (bitlen a)" by simp_all
  have p: "1 \<le> bitlen a" using assms by (simp add: bitlen_alt_def)
  from l have "(of_int (2 ^ nat (bitlen a - 1)) :: rat) \<le> of_int a" by (simp only: of_int_le_iff)
  then show "2 powi (bitlen a - 1) \<le> (of_int a :: rat)" using p by (simp add: power_int_def)
  from u have "(of_int a :: rat) < of_int (2 ^ nat (bitlen a))" by (simp only: of_int_less_iff)
  then show "(of_int a :: rat) < 2 powi (bitlen a)" using p by (simp add: power_int_def)
qed


lemma binade_bounds:
  assumes "0 < a" "0 < b"
  shows "2 powi (binade a b) \<le> (of_int a / of_int b :: rat)"
    and "(of_int a / of_int b :: rat) < 2 powi (binade a b + 1)"
proof -
  let ?k = "bitlen a - bitlen b"
  have bpos: "(0 :: rat) < of_int b" using assms by simp
  have al: "2 powi (bitlen a - 1) \<le> (of_int a :: rat)" and au: "(of_int a :: rat) < 2 powi (bitlen a)"
    using of_int_bitlen_bounds [OF assms(1)] by simp_all
  have bl: "2 powi (bitlen b - 1) \<le> (of_int b :: rat)" and bu: "(of_int b :: rat) < 2 powi (bitlen b)"
    using of_int_bitlen_bounds [OF assms(2)] by simp_all
  have split1: "(2 :: rat) powi (bitlen a) = 2 powi (?k + 1) * 2 powi (bitlen b - 1)"
    by (simp add: power_int_add [symmetric])
  have split2: "(2 :: rat) powi (bitlen a - 1) = 2 powi (?k - 1) * 2 powi (bitlen b)"
    by (simp add: power_int_add [symmetric])
  have up: "(of_int a :: rat) < 2 powi (?k + 1) * of_int b"
  proof -
    have "(of_int a :: rat) < 2 powi (?k + 1) * 2 powi (bitlen b - 1)" using au split1 by simp
    also have "\<dots> \<le> 2 powi (?k + 1) * of_int b" using bl by (simp add: mult_left_mono)
    finally show ?thesis .
  qed
  have lo: "2 powi (?k - 1) * of_int b < (of_int a :: rat)"
  proof -
    have "2 powi (?k - 1) * of_int b < (2 :: rat) powi (?k - 1) * 2 powi (bitlen b)"
      using bu by (simp add: mult_strict_left_mono)
    also have "\<dots> \<le> of_int a" using al split2 by simp
    finally show ?thesis .
  qed
  show "2 powi (binade a b) \<le> (of_int a / of_int b :: rat)"
  proof (cases "2 powi ?k * of_int b \<le> (of_int a :: rat)")
    case True
    then show ?thesis using bpos by (simp add: binade_def Let_def pos_le_divide_eq)
  next
    case False
    then show ?thesis using bpos lo by (simp add: binade_def Let_def pos_le_divide_eq)
  qed
  show "(of_int a / of_int b :: rat) < 2 powi (binade a b + 1)"
  proof (cases "2 powi ?k * of_int b \<le> (of_int a :: rat)")
    case True
    then show ?thesis using bpos up by (simp add: binade_def Let_def pos_divide_less_eq)
  next
    case False
    then show ?thesis using bpos by (simp add: binade_def Let_def pos_divide_less_eq)
  qed
qed

lemma round_binary64_le_one:
  assumes "0 < a" "a \<le> b"
  shows "round_binary64 a b \<le> 1"
proof -
  let ?q = "of_int a / of_int b :: rat"
  let ?p = "max (binade a b - 52) (- 1074)"
  have b: "0 < b" using assms by simp
  have q1: "?q \<le> 1" using assms by simp
  have "2 powi (binade a b) \<le> ?q" using binade_bounds(1) [OF assms(1) b] .
  with q1 have "(2 :: rat) powi (binade a b) \<le> 2 powi 0" by simp
  then have e: "binade a b \<le> 0" by (simp only: power_int_le_imp_le_exp [of 2] one_less_numeral_iff semiring_norm) 
  then have p: "?p \<le> 0" by simp
  have int: "(2 :: rat) powi (- ?p) = of_int (2 ^ nat (- ?p))" using p by (simp add: power_int_def)
  have "?q / 2 powi ?p = ?q * 2 powi (- ?p)" by (simp add: power_int_minus field_simps)
  also have "\<dots> \<le> 1 * 2 powi (- ?p)" using q1 by (intro mult_right_mono) simp_all
  finally have "?q / 2 powi ?p \<le> of_int (2 ^ nat (- ?p))" using int by simp
  then have "round_half_even (?q / 2 powi ?p) \<le> 2 ^ nat (- ?p)" by (rule round_half_even_le)
  then have "(of_int (round_half_even (?q / 2 powi ?p)) :: rat) \<le> of_int (2 ^ nat (- ?p))"
    by (simp only: of_int_le_iff)
  then have "(of_int (round_half_even (?q / 2 powi ?p)) :: rat) * 2 powi ?p \<le> 2 powi (- ?p) * 2 powi ?p"
    using int by (intro mult_right_mono) simp_all
  also have "\<dots> = 1" by (simp add: power_int_add [symmetric])
  finally show ?thesis using assms by (simp add: round_binary64_def Let_def)
qed


lemma powi_less_D: "(2 :: rat) powi m < 2 powi n \<Longrightarrow> m < n"
proof (rule ccontr)
  assume l: "(2 :: rat) powi m < 2 powi n" and "\<not> m < n"
  then have "n \<le> m" by simp
  then have "(2 :: rat) powi n \<le> 2 powi m" by (intro power_int_increasing) simp_all
  with l show False by simp
qed

lemma quarter_powi: "(2 :: rat) powi (- 2) = 1 / 4"
  by (simp add: power_int_minus)

lemma powi_add2: "(2 :: rat) powi (m + n) = 2 powi m * 2 powi n"
  by (simp add: power_int_add)

lemma powi_pos: "0 < (2 :: rat) powi k"
  by simp

lemma round_binary64_ge_quarter:
  assumes "0 < a" "b \<le> 4 * a" "0 < b"
  shows "1 / 4 \<le> round_binary64 a b"
proof -
  define q :: rat where "q = of_int a / of_int b"
  define e where "e = binade a b"
  define p where "p = max (e - 52) (- 1074)"
  define r where "r = round_half_even (q / 2 powi p)"
  define N :: int where "N = 2 ^ 52"
  have result: "round_binary64 a b = of_int r * 2 powi p"
    using assms(1) by (simp add: round_binary64_def Let_def r_def p_def e_def q_def)
  have "(of_int b :: rat) \<le> of_int (4 * a)" using assms(2) by (simp only: of_int_le_iff)
  then have q: "1 / 4 \<le> q" using assms by (simp add: q_def pos_le_divide_eq)
  have lo: "2 powi e \<le> q" and hi: "q < 2 powi (e + 1)"
    using binade_bounds [OF assms(1) assms(3)] by (simp_all add: q_def e_def)
  from q hi have "1 / 4 < (2 :: rat) powi (e + 1)" by (rule le_less_trans)
  then have "(2 :: rat) powi (- 2) < 2 powi (e + 1)" by (simp only: quarter_powi)
  then have "- 2 < e + 1" by (rule powi_less_D)
  then have e: "- 2 \<le> e" by simp
  then have p: "e = 52 + p" by (simp add: p_def)
  have N: "(of_int N :: rat) = 2 powi 52" by (simp add: N_def)
  have s: "(2 :: rat) powi e = of_int N * 2 powi p" unfolding p N by (rule powi_add2)
  from lo have "of_int N * 2 powi p \<le> q" by (simp only: s)
  then have "of_int N \<le> q / 2 powi p" by (simp add: pos_le_divide_eq)
  then have "N \<le> r" unfolding r_def by (rule round_half_even_ge)
  then have "(of_int N :: rat) \<le> of_int r" by (simp only: of_int_le_iff)
  then have "(of_int N :: rat) * 2 powi p \<le> of_int r * 2 powi p"
    by (rule mult_right_mono) simp
  then have big: "(2 :: rat) powi e \<le> round_binary64 a b" by (simp only: s result)
  have "(2 :: rat) powi (- 2) \<le> 2 powi e" using e by (intro power_int_increasing) simp_all
  then have "(1 / 4 :: rat) \<le> 2 powi e" by (simp only: quarter_powi)
  then show ?thesis using big by (rule order_trans)
qed

lemma round_binary64_lt_quarter:
  assumes "0 < a" "4 * a < b" "b < 2 ^ 54"
  shows "round_binary64 a b < 1 / 4"
proof -
  define q :: rat where "q = of_int a / of_int b"
  define e where "e = binade a b"
  define p where "p = max (e - 52) (- 1074)"
  define r where "r = round_half_even (q / 2 powi p)"
  define n where "n = nat (- 2 - p)"
  define N :: int where "N = 2 ^ n"
  have result: "round_binary64 a b = of_int r * 2 powi p"
    using assms(1) by (simp add: round_binary64_def Let_def r_def p_def e_def q_def)
  have b: "0 < b" using assms by simp
  have bq: "(0 :: rat) < of_int b" using b by simp
  have "(of_int (4 * a) :: rat) < of_int b" using assms(2) by (simp only: of_int_less_iff)
  then have q: "q < 1 / 4" using bq by (simp add: q_def pos_divide_less_eq)
  have lo: "2 powi e \<le> q"
    using binade_bounds(1) [OF assms(1) b] by (simp add: q_def e_def)
  from lo q have "(2 :: rat) powi e < 1 / 4" by (rule le_less_trans)
  then have "(2 :: rat) powi e < 2 powi (- 2)" by (simp only: quarter_powi)
  then have "e < - 2" by (rule powi_less_D)
  then have p: "p \<le> - 55" by (simp add: p_def)
  have n: "53 \<le> n" using p by (simp add: n_def)
  have N: "(of_int N :: rat) = 2 powi (- 2 - p)"
    using p by (simp add: power_int_def n_def N_def)
  have Npos: "(0 :: rat) < of_int N" by (simp add: N_def)
  have unscale: "(of_int N :: rat) * 2 powi p = 1 / 4"
  proof -
    have "(2 :: rat) powi (- 2 - p + p) = 2 powi (- 2 - p) * 2 powi p" by (rule powi_add2)
    then show ?thesis by (simp add: N quarter_powi)
  qed
  have yp: "(2 :: rat) powi p = 1 / (4 * of_int N)"
    using unscale Npos by (simp add: field_simps)
  have x: "q / 2 powi p = 4 * q * of_int N" by (simp add: yp)
  have gap: "4 * a + 1 \<le> b" using assms(2) by simp
  have "(of_int (4 * a + 1) :: rat) \<le> of_int b" using gap by (simp only: of_int_le_iff)
  then have "4 * (of_int a :: rat) \<le> of_int b - 1" by simp
  then have "4 * q \<le> (of_int b - 1) / of_int b" using bq by (simp add: q_def pos_le_divide_eq)
  also have "\<dots> = 1 - 1 / of_int b" using bq by (simp add: field_simps)
  finally have q4: "4 * q \<le> 1 - 1 / of_int b" .
  have blt: "(of_int b :: rat) < 2 * of_int N"
  proof -
    have "b < 2 ^ 54" by (rule assms(3))
    also have "(2 :: int) ^ 54 \<le> 2 * 2 ^ n" using n power_increasing [of 53 n "2 :: int"] by simp
    finally have "b < 2 * N" by (simp add: N_def)
    then have "(of_int b :: rat) < of_int (2 * N)" by (simp only: of_int_less_iff)
    then show ?thesis by simp
  qed
  have "4 * q * of_int N \<le> (1 - 1 / of_int b) * of_int N"
    using q4 Npos by (intro mult_right_mono) simp_all
  also have "\<dots> = of_int N - of_int N / of_int b" by (simp add: field_simps)
  also have "\<dots> < of_int N - 1 / 2"
  proof -
    have "(1 / 2 :: rat) < of_int N / of_int b" using blt bq by (simp add: pos_less_divide_eq)
    then show ?thesis by simp
  qed
  finally have "q / 2 powi p < of_int N - 1 / 2" by (simp only: x)
  then have "r < N" unfolding r_def by (rule round_half_even_lt)
  then have "(of_int r :: rat) < of_int N" by (simp only: of_int_less_iff)
  then have "(of_int r :: rat) * 2 powi p < of_int N * 2 powi p"
    by (rule mult_strict_right_mono) simp
  then show ?thesis by (simp only: result unscale)
qed

section \<open>Properties of the classifier\<close>

lemma py_strip_eq_Nil_iff: "py_strip s = [] \<longleftrightarrow> list_all is_space s"
proof -
  have "dropWhile is_space (rev (dropWhile is_space s)) = [] \<longleftrightarrow> dropWhile is_space s = []"
  proof
    assume a: "dropWhile is_space (rev (dropWhile is_space s)) = []"
    show "dropWhile is_space s = []"
    proof (rule ccontr)
      assume n: "dropWhile is_space s \<noteq> []"
      then have "\<not> is_space (hd (dropWhile is_space s))" by (rule hd_dropWhile)
      moreover have "hd (dropWhile is_space s) \<in> set (rev (dropWhile is_space s))"
        using n by simp
      ultimately show False using a by (auto simp: dropWhile_eq_Nil_conv)
    qed
  next
    assume "dropWhile is_space s = []"
    then show "dropWhile is_space (rev (dropWhile is_space s)) = []"
      by (simp only: rev.simps dropWhile.simps)
  qed
  then have "py_strip s = [] \<longleftrightarrow> dropWhile is_space s = []" by (simp add: py_strip_def)
  also have "\<dots> \<longleftrightarrow> list_all is_space s" by (simp add: dropWhile_eq_Nil_conv list_all_iff)
  finally show ?thesis .
qed

lemma countable_char_iff:
  "countable_char c \<longleftrightarrow> \<not> is_space c \<and> c \<notin> set skipped_punctuation"
  by (simp add: countable_char_def py_strip_def py_isspace_def)

lemma foldl_count_step:
  "foldl count_step s xs =
     (fst s + int (length (filter (\<lambda>c. countable_char c \<and> bangla_char c) xs)),
      snd s + int (length (filter countable_char xs)))"
  by (induction xs arbitrary: s) (simp_all add: count_step_def)

lemma count_chars_eq:
  "count_chars text =
     (int (length (filter (\<lambda>c. countable_char c \<and> bangla_char c) text)),
      int (length (filter countable_char text)))"
  by (simp add: count_chars_def foldl_count_step)

lemma count_chars_bounds:
  "0 \<le> fst (count_chars text)" "fst (count_chars text) \<le> snd (count_chars text)"
proof -
  show "0 \<le> fst (count_chars text)" by (simp add: count_chars_eq)
  have "filter (\<lambda>c. countable_char c \<and> bangla_char c) text = filter bangla_char (filter countable_char text)"
    by (simp add: conj_commute)
  then have "length (filter (\<lambda>c. countable_char c \<and> bangla_char c) text) \<le> length (filter countable_char text)"
    by (simp only: length_filter_le)
  then show "fst (count_chars text) \<le> snd (count_chars text)" by (simp add: count_chars_eq)
qed

lemma py_truediv_ratio:
  assumes "0 \<le> a" "a \<le> b" "0 < b"
  shows "py_truediv a b = Inr (round_binary64 a b)"
proof (cases "a = 0")
  case True
  then show ?thesis using assms by (simp add: py_truediv_def round_binary64_def)
next
  case False
  then have a: "0 < a" using assms by simp
  have "round_binary64 a b \<le> 1" using a assms(2) by (rule round_binary64_le_one)
  also have "(1 :: rat) < 2 ^ 1024" by simp
  finally have "\<not> 2 ^ 1024 \<le> round_binary64 a b" by simp
  then show ?thesis using a assms by (simp add: py_truediv_def Let_def)
qed

lemma is_bangla_text_eq:
  "is_bangla_text text =
     Inr (py_strip text \<noteq> [] \<and> \<not> has_system_keyword text \<and> 0 < snd (count_chars text) \<and>
          1 / 4 \<le> round_binary64 (fst (count_chars text)) (snd (count_chars text)))"
proof -
  have n: "py_strip [] = []" by (simp add: py_strip_def)
  have t: "0 \<le> snd (count_chars text)" using count_chars_bounds [of "text"] by simp
  show ?thesis
  proof (cases "snd (count_chars text) = 0")
    case True
    then show ?thesis using n by (auto simp: is_bangla_text_def Let_def)
  next
    case False
    with t have "0 < snd (count_chars text)" by simp
    then have "py_truediv (fst (count_chars text)) (snd (count_chars text)) =
        Inr (round_binary64 (fst (count_chars text)) (snd (count_chars text)))"
      using count_chars_bounds [of "text"] by (intro py_truediv_ratio) simp_all
    then show ?thesis using n False t by (auto simp: is_bangla_text_def Let_def)
  qed
qed

lemma threshold_exact:
  assumes "0 \<le> a" "0 < b" "b < 2 ^ 54"
  shows "1 / 4 \<le> round_binary64 a b \<longleftrightarrow> 1 / 4 \<le> (of_int a / of_int b :: rat)"
proof (cases "a = 0")
  case True
  then show ?thesis by (simp add: round_binary64_def)
next
  case False
  then have a: "0 < a" using assms by simp
  have bq: "(0 :: rat) < of_int b" using assms by simp
  show ?thesis
  proof (cases "b \<le> 4 * a")
    case True
    then have "(of_int b :: rat) \<le> of_int (4 * a)" by (simp only: of_int_le_iff)
    then have "1 / 4 \<le> (of_int a / of_int b :: rat)" using bq by (simp add: pos_le_divide_eq)
    moreover have "1 / 4 \<le> round_binary64 a b" using a True assms(2) by (rule round_binary64_ge_quarter)
    ultimately show ?thesis by simp
  next
    case False
    then have l: "4 * a < b" by simp
    then have "(of_int (4 * a) :: rat) < of_int b" by (simp only: of_int_less_iff)
    then have "(of_int a / of_int b :: rat) < 1 / 4" using bq by (simp add: pos_divide_less_eq)
    moreover have "round_binary64 a b < 1 / 4" using a l assms(3) by (rule round_binary64_lt_quarter)
    ultimately show ?thesis by simp
  qed
qed

lemma set_py_lower: "set (py_lower s) = (\<Union>c\<in>set s. set (py_lower_char c))"
  by (simp add: py_lower_def)

lemma no_keyword_without_e:
  assumes "101 \<notin> set text" "69 \<notin> set text"
  shows "\<not> has_system_keyword text"
proof -
  have "101 \<notin> set (py_lower text)"
    using assms by (auto simp: set_py_lower py_lower_char_def split: if_splits)
  moreover have "\<forall>k\<in>set system_keywords. 101 \<in> set (py_lower k)"
    by (simp add: system_keywords_def ustr_def py_lower_def py_lower_char_def)
  ultimately show ?thesis
    by (auto simp: has_system_keyword_def list_ex_iff dest!: set_mono_sublist)
qed

lemma filter_loop_eq:
  "filter_loop acc msgs = Inr (acc @ filter (\<lambda>m. is_bangla_text (message m) = Inr True) msgs)"
proof (induction msgs arbitrary: acc)
  case Nil
  then show ?case by simp
next
  case (Cons m msgs)
  obtain b where b: "is_bangla_text (message m) = Inr b"
    by (auto simp: is_bangla_text_eq)
  show ?case by (cases b) (simp_all add: b Cons.IH)
qed

lemmas classifier_eval =
  ustr_def is_space_def skipped_punctuation_def py_strip_def py_lower_def py_lower_char_def
  count_chars_eq countable_char_iff bangla_char_def

lemma big_text_counts: "count_chars big_text = (2 ^ 52, 2 ^ 54 + 1)"
  by (simp add: big_text_def count_chars_eq countable_char_iff bangla_char_def is_space_def
      skipped_punctuation_def ustr_def)

lemma big_text_set: "set big_text = {2453, 120}"
  by (auto simp: big_text_def)

lemma big_text_no_keyword: "\<not> has_system_keyword big_text"
  by (rule no_keyword_without_e) (simp_all add: big_text_set)

lemma big_text_strip: "py_strip big_text \<noteq> []"
  by (simp add: py_strip_eq_Nil_iff list_all_iff big_text_set is_space_def)

lemma big_bitlen: "bitlen 4503599627370496 = 53" "bitlen 18014398509481985 = 55"
  by (simp_all add: compute_bitlen)

lemma big_binade: "binade 4503599627370496 18014398509481985 = - 3"
  by (simp add: binade_def big_bitlen Let_def power_int_minus)

lemma big_floor:
  "\<lfloor>(162259276829213363391578010288128 / 18014398509481985 :: rat)\<rfloor> = 9007199254740991"
  by (rule floor_unique) simp_all

lemma big_round_half_even:
  "round_half_even (162259276829213363391578010288128 / 18014398509481985) = 9007199254740992"
  by (simp add: round_half_even_def big_floor Let_def)

lemma big_round: "round_binary64 4503599627370496 18014398509481985 = 1 / 4"
  by (simp add: round_binary64_def big_binade big_round_half_even Let_def power_int_minus)

section \<open>Properties of the scan\<close>

lemma parse_step_header:
  "header_message l = Some c \<Longrightarrow> parse_step (ms, cur) l = (ms @ open_message cur, Some c)"
  by (auto simp: header_message_def parse_step_def open_message_def split: option.splits)

lemma parse_step_other:
  "re_match_header l = None \<Longrightarrow>
   parse_step (ms, cur) l =
     (ms, map_option (\<lambda>x. if py_strip l \<noteq> [] then x\<lparr>message := message x @ [10] @ py_strip l\<rparr> else x) cur)"
  by (auto simp: parse_step_def split: option.splits)

lemma header_message_cases:
  obtains (header) c where "header_message l = Some c" "is_header l"
  | (other) "re_match_header l = None" "\<not> is_header l"
  by (cases "re_match_header l") (auto simp: header_message_def is_header_def)

lemma parse_step_prefix:
  "parse_step (ms, cur) l = (ms @ fst (parse_step ([], cur) l), snd (parse_step ([], cur) l))"
  by (cases l rule: header_message_cases) (simp_all add: parse_step_header parse_step_other)

lemma foldl_parse_step_prefix:
  "foldl parse_step (ms, cur) ls =
     (ms @ fst (foldl parse_step ([], cur) ls), snd (foldl parse_step ([], cur) ls))"
proof (induction ls arbitrary: ms cur)
  case Nil
  then show ?case by simp
next
  case (Cons l ls)
  obtain a c where s: "parse_step ([], cur) l = (a, c)" by (cases "parse_step ([], cur) l")
  then have s': "parse_step (ms, cur) l = (ms @ a, c)"
    using parse_step_prefix [of ms cur l] by simp
  show ?case
    using Cons.IH [of "ms @ a" c] Cons.IH [of a c] by (simp add: s s')
qed

lemma parse_finish_foldl:
  "parse_finish (foldl parse_step (ms, cur) ls) = ms @ parse_from cur ls"
  using foldl_parse_step_prefix [of ms cur ls]
  by (simp add: parse_from_def parse_finish_def split: option.splits)

lemma parse_lines_from: "parse_lines ls = parse_from None ls"
  by (simp add: parse_lines_def parse_from_def)

lemma parse_from_Nil: "parse_from cur [] = open_message cur"
  by (simp add: parse_from_def parse_finish_def open_message_def split: option.splits)

lemma parse_from_header:
  "header_message l = Some c \<Longrightarrow> parse_from cur (l # ls) = open_message cur @ parse_from (Some c) ls"
  using parse_finish_foldl [of "open_message cur" "Some c" ls]
  by (simp add: parse_from_def parse_step_header)

lemma parse_from_other:
  "re_match_header l = None \<Longrightarrow>
   parse_from cur (l # ls) =
     parse_from (map_option (\<lambda>x. if py_strip l \<noteq> [] then x\<lparr>message := message x @ [10] @ py_strip l\<rparr> else x) cur) ls"
  by (simp add: parse_from_def parse_step_other)

lemma parse_from_None_other:
  "\<forall>l\<in>set pre. re_match_header l = None \<Longrightarrow> parse_from None (pre @ rest) = parse_from None rest"
  by (induction pre) (simp_all add: parse_from_other)

lemma parse_from_Some_other:
  "\<forall>l\<in>set conts. re_match_header l = None \<Longrightarrow>
   parse_from (Some x) (conts @ rest) =
     parse_from (Some (x\<lparr>message := message x @ continuation_text conts\<rparr>)) rest"
proof (induction conts arbitrary: x)
  case Nil
  then show ?case by (simp add: continuation_text_def)
next
  case (Cons l conts)
  then show ?case by (simp add: parse_from_other continuation_text_def)
qed

lemma parse_from_Some_closed:
  "rest = [] \<or> re_match_header (hd rest) \<noteq> None \<Longrightarrow>
   parse_from (Some x) rest = x # parse_from None rest"
proof (cases rest)
  case Nil
  then show ?thesis by (simp add: parse_from_Nil open_message_def)
next
  case (Cons l ls)
  assume "rest = [] \<or> re_match_header (hd rest) \<noteq> None"
  with Cons have "re_match_header l \<noteq> None" by simp
  then obtain c where "header_message l = Some c" by (auto simp: header_message_def)
  then show ?thesis using Cons by (simp add: parse_from_header open_message_def)
qed

lemma parse_from_append_header:
  "header_message h = Some c \<Longrightarrow>
   parse_from cur (pre @ h # ls) = parse_from cur pre @ parse_from (Some c) ls"
proof (induction pre arbitrary: cur)
  case Nil
  then show ?case by (simp add: parse_from_header parse_from_Nil)
next
  case (Cons l pre)
  show ?case
  proof (cases l rule: header_message_cases)
    case (header c')
    then show ?thesis using Cons by (simp add: parse_from_header)
  next
    case other
    then show ?thesis using Cons by (simp add: parse_from_other)
  qed
qed

lemma started_by_extend:
  "started_by x h \<Longrightarrow> started_by (x\<lparr>message := message x @ ys\<rparr>) h"
  by (auto simp: started_by_def split: option.splits)

lemma started_by_self: "header_message l = Some c \<Longrightarrow> started_by c l"
  by (simp add: started_by_def)

lemma parse_from_started_by:
  "started_by x h \<Longrightarrow> list_all2 started_by (parse_from (Some x) ls) (h # filter is_header ls)"
proof (induction ls arbitrary: x h)
  case Nil
  then show ?case by (simp add: parse_from_Nil open_message_def)
next
  case (Cons l ls)
  show ?case
  proof (cases l rule: header_message_cases)
    case (header c)
    then show ?thesis
      using Cons.prems Cons.IH [OF started_by_self [OF header(1)]]
      by (simp add: parse_from_header open_message_def)
  next
    case other
    then show ?thesis
      using Cons.IH [OF started_by_extend [OF Cons.prems]] Cons.IH [OF Cons.prems]
      by (simp add: parse_from_other)
  qed
qed

lemma parse_from_None_started_by:
  "list_all2 started_by (parse_from None ls) (filter is_header ls)"
proof (induction ls)
  case Nil
  then show ?case by (simp add: parse_from_Nil open_message_def)
next
  case (Cons l ls)
  show ?case
  proof (cases l rule: header_message_cases)
    case (header c)
    then show ?thesis
      using parse_from_started_by [OF started_by_self [OF header(1)]]
      by (simp add: parse_from_header open_message_def)
  next
    case other
    then show ?thesis using Cons by (simp add: parse_from_other)
  qed
qed

section \<open>Properties of the header pattern\<close>

lemma hyphen_class: "\<not> is_decimal 45" "\<not> is_space 45"
  by (simp_all add: is_decimal_def decimal_blocks_def is_space_def)

lemma decimal_no_hyphen: "list_all is_decimal d \<Longrightarrow> 45 \<notin> set d"
  using hyphen_class(1) by (auto simp: list_all_iff)

lemma spaces_no_hyphen: "45 \<notin> set (takeWhile is_space xs)"
  using hyphen_class(2) by (auto dest: set_takeWhileD)

lemma re_digits12_SomeD:
  "re_digits12 xs = Some (d, r) \<Longrightarrow> xs = d @ r \<and> 45 \<notin> set d"
  using hyphen_class(1) by (cases xs rule: re_digits12.cases) (auto split: if_splits)

lemma re_digits_SomeD: "re_digits n xs = Some (d, r) \<Longrightarrow> xs = d @ r \<and> 45 \<notin> set d"
  by (auto simp: re_digits_def dest: decimal_no_hyphen split: if_splits)

lemma re_lit_SomeD: "re_lit c xs = Some r \<Longrightarrow> xs = c # r"
  by (auto simp: re_lit_def split: list.splits if_splits)

lemma re_spaces1_SomeD: "re_spaces1 xs = Some r \<Longrightarrow> xs = takeWhile is_space xs @ r"
  by (auto simp: re_spaces1_def split: if_splits)

lemma re_ampm_SomeD: "re_ampm xs = Some (ap, r) \<Longrightarrow> xs = ap @ r \<and> 45 \<notin> set ap"
  by (auto simp: re_ampm_def split: list.splits if_splits)

lemma re_sender_SomeD:
  "re_sender xs = Some (g, r) \<Longrightarrow> r = tl (dropWhile (\<lambda>c. c \<noteq> 58) xs)"
  by (auto simp: re_sender_def Let_def split: if_splits)

lemma py_strip_dropWhile: "py_strip (dropWhile is_space xs) = py_strip xs"
  by (simp add: py_strip_def)

lemma py_strip_snoc_space: "is_space c \<Longrightarrow> py_strip (xs @ [c]) = py_strip xs"
proof (cases "list_all is_space xs")
  case True
  assume "is_space c"
  with True have "list_all is_space (xs @ [c])" by simp
  then have "py_strip (xs @ [c]) = []" by (simp only: py_strip_eq_Nil_iff)
  moreover have "py_strip xs = []" using True by (simp only: py_strip_eq_Nil_iff)
  ultimately show ?thesis by simp
next
  case False
  assume c: "is_space c"
  from False obtain x where "x \<in> set xs" "\<not> is_space x" by (auto simp: list_all_iff)
  then have "dropWhile is_space (xs @ [c]) = dropWhile is_space xs @ [c]"
    by (rule dropWhile_append1)
  then show ?thesis using c by (simp add: py_strip_def)
qed

lemma re_body_strip: "re_body xs = Some g \<Longrightarrow> py_strip g = py_strip xs"
proof -
  assume a: "re_body xs = Some g"
  let ?b = "dropWhile is_space xs"
  show ?thesis
  proof (cases "?b \<noteq> [] \<and> last ?b = 10")
    case True
    then have g: "g = butlast ?b" using a by (auto simp: re_body_def Let_def split: if_splits)
    have "?b = butlast ?b @ [10]" using True by (metis append_butlast_last_id)
    then have "py_strip ?b = py_strip (butlast ?b @ [10])" by simp
    also have "\<dots> = py_strip (butlast ?b)" by (rule py_strip_snoc_space) (simp add: is_space_def)
    finally show ?thesis using g by (simp add: py_strip_dropWhile)
  next
    case False
    then have "g = ?b" using a by (auto simp: re_body_def Let_def split: if_splits)
    then show ?thesis by (simp add: py_strip_dropWhile)
  qed
qed

lemma first_hyphen: "45 \<notin> set p \<Longrightarrow> dropWhile (\<lambda>c. c \<noteq> 45) (p @ 45 # r) = 45 # r"
  by (induction p) auto

lemma re_match_header_text:
  assumes "re_match_header line = Some (g1, g2, g3, g4)"
  shows "py_strip g4 = py_strip (text_after_sender line)"
proof -
  from assms obtain d r1 r2 m r3 r4 y r5 r6 r7 h r8 r9 mi r10 ap r11 r12 r13 where
    s: "re_digits12 line = Some (d, r1)" "re_lit 47 r1 = Some r2"
      "re_digits12 r2 = Some (m, r3)" "re_lit 47 r3 = Some r4"
      "re_digits 4 r4 = Some (y, r5)" "re_lit 44 r5 = Some r6"
      "re_spaces1 r6 = Some r7" "re_digits12 r7 = Some (h, r8)"
      "re_lit 58 r8 = Some r9" "re_digits 2 r9 = Some (mi, r10)"
      "re_ampm (dropWhile is_space r10) = Some (ap, r11)"
      "re_lit 45 (dropWhile is_space r11) = Some r12"
      "re_sender r12 = Some (g3, r13)" "re_body r13 = Some g4"
    by (auto simp: re_match_header_def bind_eq_Some_conv)
  define p where "p = d @ 47 # m @ 47 # y @ 44 # takeWhile is_space r6 @ h @ 58 # mi @
     takeWhile is_space r10 @ ap @ takeWhile is_space r11"
  have w10: "r10 = takeWhile is_space r10 @ dropWhile is_space r10" by simp
  have w11: "r11 = takeWhile is_space r11 @ dropWhile is_space r11" by simp
  have "line = d @ r1" using s(1) by (simp add: re_digits12_SomeD)
  also have "r1 = 47 # r2" using s(2) by (rule re_lit_SomeD)
  also have "r2 = m @ r3" using s(3) by (simp add: re_digits12_SomeD)
  also have "r3 = 47 # r4" using s(4) by (rule re_lit_SomeD)
  also have "r4 = y @ r5" using s(5) by (simp add: re_digits_SomeD)
  also have "r5 = 44 # r6" using s(6) by (rule re_lit_SomeD)
  also have "r6 = takeWhile is_space r6 @ r7" using s(7) by (rule re_spaces1_SomeD)
  also have "r7 = h @ r8" using s(8) by (simp add: re_digits12_SomeD)
  also have "r8 = 58 # r9" using s(9) by (rule re_lit_SomeD)
  also have "r9 = mi @ r10" using s(10) by (simp add: re_digits_SomeD)
  also have "r10 = takeWhile is_space r10 @ dropWhile is_space r10" by simp
  also have "dropWhile is_space r10 = ap @ r11" using s(11) by (simp add: re_ampm_SomeD)
  also have "r11 = takeWhile is_space r11 @ dropWhile is_space r11" by simp
  also have "dropWhile is_space r11 = 45 # r12" using s(12) by (rule re_lit_SomeD)
  finally have line: "line = p @ 45 # r12" by (simp add: p_def)
  have "45 \<notin> set p"
    using re_digits12_SomeD [OF s(1)] re_digits12_SomeD [OF s(3)] re_digits_SomeD [OF s(5)]
      re_digits12_SomeD [OF s(8)] re_digits_SomeD [OF s(10)] re_ampm_SomeD [OF s(11)]
      spaces_no_hyphen
    by (simp add: p_def)
  then have "dropWhile (\<lambda>c. c \<noteq> 45) line = 45 # r12" unfolding line by (rule first_hyphen)
  then have "text_after_sender line = r13"
    using re_sender_SomeD [OF s(13)] by (simp add: text_after_sender_def)
  then show ?thesis using re_body_strip [OF s(14)] by simp
qed

lemma split_nl_no_newline: "10 \<notin> set line \<Longrightarrow> split_nl line = [line]"
  by (induction line) auto

lemmas parser_eval =
  parse_whatsapp_chat_def parse_lines_def parse_finish_def parse_step_def re_match_header_def
  re_digits12.simps re_digits_def re_lit_def re_spaces1_def re_ampm_def re_sender_def
  re_body_def is_decimal_def decimal_blocks_def is_space_def py_strip_def ustr_def Let_def

section \<open>Properties of regular expressions\<close>

lemma nullable_iff: "nullable r \<longleftrightarrow> [] \<in> lang r"
proof (induction r)
  case (Star r)
  have "[] = concat [] \<and> set [] \<subseteq> lang r" by simp
  then have "\<exists>ws. [] = concat ws \<and> set ws \<subseteq> lang r" by (rule exI)
  then show ?case by simp
qed auto

lemma star_cons:
  "c # w \<in> lang (Star r) \<longleftrightarrow> (\<exists>u v. w = u @ v \<and> c # u \<in> lang r \<and> v \<in> lang (Star r))"
proof
  assume "c # w \<in> lang (Star r)"
  then obtain ws where ws: "c # w = concat ws" "set ws \<subseteq> lang r" by auto
  then show "\<exists>u v. w = u @ v \<and> c # u \<in> lang r \<and> v \<in> lang (Star r)"
  proof (induction ws)
    case Nil
    then show ?case by simp
  next
    case (Cons x ws)
    show ?case
    proof (cases x)
      case Nil
      then show ?thesis using Cons by simp
    next
      case (Cons a u)
      with Cons.prems have "a = c" "w = u @ concat ws" "c # u \<in> lang r" "set ws \<subseteq> lang r"
        by auto
      then show ?thesis by auto
    qed
  qed
next
  assume "\<exists>u v. w = u @ v \<and> c # u \<in> lang r \<and> v \<in> lang (Star r)"
  then obtain u ws where "w = u @ concat ws" "c # u \<in> lang r" "set ws \<subseteq> lang r" by auto
  then have "c # w = concat ((c # u) # ws)" "set ((c # u) # ws) \<subseteq> lang r" by auto
  then show "c # w \<in> lang (Star r)" by (simp del: concat.simps set_simps) blast
qed

lemma lang_deriv: "w \<in> lang (deriv c r) \<longleftrightarrow> c # w \<in> lang r"
proof (induction r arbitrary: w)
  case (Times r s)
  show ?case
  proof (cases "nullable r")
    case True
    then show ?thesis using Times by (auto simp: nullable_iff Cons_eq_append_conv)
  next
    case False
    then show ?thesis using Times by (auto simp: nullable_iff Cons_eq_append_conv)
  qed
next
  case (Star r)
  have "w \<in> lang (deriv c (Star r)) \<longleftrightarrow>
      (\<exists>u v. w = u @ v \<and> u \<in> lang (deriv c r) \<and> v \<in> lang (Star r))"
    by auto
  also have "\<dots> \<longleftrightarrow> (\<exists>u v. w = u @ v \<and> c # u \<in> lang r \<and> v \<in> lang (Star r))"
    using Star by simp
  also have "\<dots> \<longleftrightarrow> c # w \<in> lang (Star r)" by (simp only: star_cons)
  finally show ?case .
qed auto

lemma rexp_matches_iff_lang: "rexp_matches r w \<longleftrightarrow> w \<in> lang r"
  unfolding rexp_matches_def
  by (induction w arbitrary: r) (simp_all add: nullable_iff lang_deriv)

lemma lang_seq_Nil: "lang (seq []) = {[]}"
  by (simp add: seq_def)

lemma lang_seq_Cons: "lang (seq (r # rs)) = {u @ v | u v. u \<in> lang r \<and> v \<in> lang (seq rs)}"
  by (simp add: seq_def)

lemma seqI: "u \<in> lang r \<Longrightarrow> v \<in> lang (seq rs) \<Longrightarrow> u @ v \<in> lang (seq (r # rs))"
  by (auto simp: lang_seq_Cons)

lemma seqE:
  assumes "w \<in> lang (seq (r # rs))"
  obtains u v where "w = u @ v" "u \<in> lang r" "v \<in> lang (seq rs)"
  using assms by (auto simp: lang_seq_Cons)

lemma lang_Times_Atom: "lang (Times (Atom P) r) = {c # v | c v. P c \<and> v \<in> lang r}"
proof (intro set_eqI iffI)
  fix w assume "w \<in> lang (Times (Atom P) r)"
  then obtain c v where "w = [c] @ v" "P c" "v \<in> lang r" by auto
  then show "w \<in> {c # v | c v. P c \<and> v \<in> lang r}" by simp
next
  fix w assume "w \<in> {c # v | c v. P c \<and> v \<in> lang r}"
  then obtain c v where w: "w = c # v" and c: "P c" and v: "v \<in> lang r" by auto
  have "w = [c] @ v \<and> [c] \<in> lang (Atom P) \<and> v \<in> lang r" using w c v by simp
  then have "\<exists>u v. w = u @ v \<and> u \<in> lang (Atom P) \<and> v \<in> lang r" by blast
  then show "w \<in> lang (Times (Atom P) r)" by simp
qed

lemma lang_Star_Atom: "lang (Star (Atom P)) = {w. list_all P w}"
proof (intro set_eqI iffI)
  fix w assume "w \<in> lang (Star (Atom P))"
  then obtain ws where w: "w = concat ws" and s: "set ws \<subseteq> {[c] | c. P c}" by auto
  from s have "list_all P (concat ws)" by (induction ws) auto
  with w show "w \<in> {w. list_all P w}" by simp
next
  fix w assume "w \<in> {w. list_all P w}"
  then have "w = concat (map (\<lambda>c. [c]) w) \<and> set (map (\<lambda>c. [c]) w) \<subseteq> lang (Atom P)"
    by (induction w) auto
  then have "\<exists>ws. w = concat ws \<and> set ws \<subseteq> lang (Atom P)" by (rule exI)
  then show "w \<in> lang (Star (Atom P))" by simp
qed

lemma lang_plus1_Atom: "lang (plus1 (Atom P)) = {w. w \<noteq> [] \<and> list_all P w}"
proof -
  have "lang (plus1 (Atom P)) = {c # v | c v. P c \<and> v \<in> lang (Star (Atom P))}"
    unfolding plus1_def by (rule lang_Times_Atom)
  also have "\<dots> = {w. w \<noteq> [] \<and> list_all P w}"
    unfolding lang_Star_Atom by (auto simp: neq_Nil_conv)
  finally show ?thesis .
qed

lemma lang_opt_Atom: "lang (opt (Atom P)) = {[]} \<union> {[c] | c. P c}"
  by (simp add: opt_def)

lemma lang_rx_ampm:
  "lang rx_ampm = {[a, m] | a m. (a = 97 \<or> a = 65 \<or> a = 112 \<or> a = 80) \<and> (m = 109 \<or> m = 77)}"
  unfolding rx_ampm_def either_def lang.simps(4) lang_Times_Atom by auto

lemma lang_lit: "lang (lit c) = {[c]}"
  by (auto simp: lit_def)

lemma decimal_not_space: "is_decimal c \<Longrightarrow> \<not> is_space c"
  by (auto simp: is_decimal_def is_space_def decimal_blocks_def)

lemma class_facts:
  "\<not> is_decimal 47" "\<not> is_decimal 58" "\<not> is_decimal 44" "\<not> is_space 45" "\<not> is_space 58"
  "\<not> is_space 97" "\<not> is_space 65" "\<not> is_space 112" "\<not> is_space 80" "is_space 10"
  by (simp_all add: is_decimal_def is_space_def decimal_blocks_def)

lemma in_seq_Atom:
  "w \<in> lang (seq (Atom P # rs)) \<longleftrightarrow> (\<exists>c v. w = c # v \<and> P c \<and> v \<in> lang (seq rs))"
proof -
  have "lang (seq (Atom P # rs)) = lang (Times (Atom P) (seq rs))" by (simp add: seq_def)
  then show ?thesis unfolding lang_Times_Atom by auto
qed

lemma in_seq_lit: "w \<in> lang (seq (lit c # rs)) \<longleftrightarrow> (\<exists>v. w = c # v \<and> v \<in> lang (seq rs))"
  unfolding lit_def in_seq_Atom by auto

lemma in_seq_digit:
  "w \<in> lang (seq (rx_digit # rs)) \<longleftrightarrow> (\<exists>c v. w = c # v \<and> is_decimal c \<and> v \<in> lang (seq rs))"
  unfolding rx_digit_def by (rule in_seq_Atom)

lemma in_seq_opt_digit:
  "w \<in> lang (seq (opt rx_digit # rs)) \<longleftrightarrow>
     w \<in> lang (seq rs) \<or> (\<exists>c v. w = c # v \<and> is_decimal c \<and> v \<in> lang (seq rs))"
proof -
  have "lang (seq (opt rx_digit # rs)) = lang (seq rs) \<union> lang (seq (rx_digit # rs))"
    by (auto simp: seq_def opt_def)
  then show ?thesis by (simp add: in_seq_digit)
qed

lemma in_seq_Star_Atom:
  "w \<in> lang (seq (Star (Atom P) # rs)) \<longleftrightarrow>
     (\<exists>u v. w = u @ v \<and> list_all P u \<and> v \<in> lang (seq rs))"
  unfolding lang_seq_Cons lang_Star_Atom by auto

lemma in_seq_plus1_Atom:
  "w \<in> lang (seq (plus1 (Atom P) # rs)) \<longleftrightarrow>
     (\<exists>u v. w = u @ v \<and> u \<noteq> [] \<and> list_all P u \<and> v \<in> lang (seq rs))"
  unfolding lang_seq_Cons lang_plus1_Atom by auto

lemma in_seq_ampm:
  "w \<in> lang (seq (rx_ampm # rs)) \<longleftrightarrow>
     (\<exists>a m v. w = a # m # v \<and> (a = 97 \<or> a = 65 \<or> a = 112 \<or> a = 80) \<and> (m = 109 \<or> m = 77) \<and>
        v \<in> lang (seq rs))"
proof -
  have "w \<in> lang (seq (rx_ampm # rs)) \<longleftrightarrow>
      (\<exists>u v. w = u @ v \<and> u \<in> lang rx_ampm \<and> v \<in> lang (seq rs))"
    by (auto simp: lang_seq_Cons)
  also have "\<dots> \<longleftrightarrow>
      (\<exists>a m v. w = [a, m] @ v \<and> (a = 97 \<or> a = 65 \<or> a = 112 \<or> a = 80) \<and> (m = 109 \<or> m = 77) \<and>
        v \<in> lang (seq rs))"
    unfolding lang_rx_ampm by blast
  finally show ?thesis by simp
qed

lemma in_seq_opt_lit_end: "w \<in> lang (seq [opt (lit c)]) \<longleftrightarrow> w = [] \<or> w = [c]"
  by (auto simp: seq_def opt_def lit_def)

lemma spaces_split:
  assumes "list_all is_space u" "v = [] \<or> \<not> is_space (hd v)"
  shows "dropWhile is_space (u @ v) = v" "takeWhile is_space (u @ v) = u"
proof -
  have d: "dropWhile is_space v = v" using assms(2) by (cases v) auto
  have t: "takeWhile is_space v = []" using assms(2) by (cases v) auto
  show "dropWhile is_space (u @ v) = v"
    using assms(1) d by (simp add: dropWhile_append2 list_all_iff)
  show "takeWhile is_space (u @ v) = u"
    using assms(1) t by (simp add: takeWhile_append2 list_all_iff)
qed

section \<open>The matcher decides the header grammar\<close>

text \<open>
  From a successful match to the language of \<open>header_rexp\<close>, piece by piece from the
  right.
\<close>

lemma lit_in: "re_lit c xs = Some r \<Longrightarrow> r \<in> lang (seq rs) \<Longrightarrow> xs \<in> lang (seq (lit c # rs))"
  by (auto simp: re_lit_def in_seq_lit split: list.splits if_splits)

lemma digits12_in:
  "re_digits12 xs = Some (d, r) \<Longrightarrow> r \<in> lang (seq rs) \<Longrightarrow>
   xs \<in> lang (seq (rx_digit # opt rx_digit # rs))"
  by (cases xs rule: re_digits12.cases) (auto simp: in_seq_digit in_seq_opt_digit split: if_splits)

lemma digits2_in:
  "re_digits 2 xs = Some (d, r) \<Longrightarrow> r \<in> lang (seq rs) \<Longrightarrow>
   xs \<in> lang (seq (rx_digit # rx_digit # rs))"
proof -
  assume a: "re_digits 2 xs = Some (d, r)" and r: "r \<in> lang (seq rs)"
  from a have l: "2 \<le> length xs" and "list_all is_decimal (take 2 xs)" and "r = drop 2 xs"
    by (auto simp: re_digits_def split: if_splits)
  from l obtain a b t where "xs = a # b # t" by (cases xs; cases "tl xs") auto
  then show ?thesis using a r by (auto simp: re_digits_def in_seq_digit split: if_splits)
qed

lemma digits4_in:
  "re_digits 4 xs = Some (d, r) \<Longrightarrow> r \<in> lang (seq rs) \<Longrightarrow>
   xs \<in> lang (seq (rx_digit # rx_digit # rx_digit # rx_digit # rs))"
proof -
  assume a: "re_digits 4 xs = Some (d, r)" and r: "r \<in> lang (seq rs)"
  from a have l: "4 \<le> length xs" by (auto simp: re_digits_def split: if_splits)
  then obtain a1 a2 a3 a4 t where "xs = a1 # a2 # a3 # a4 # t"
    by (cases xs; cases "tl xs"; cases "tl (tl xs)"; cases "tl (tl (tl xs))") auto
  then show ?thesis using a r by (auto simp: re_digits_def in_seq_digit split: if_splits)
qed

lemma spaces_in:
  "dropWhile is_space xs \<in> lang (seq rs) \<Longrightarrow> xs \<in> lang (seq (Star rx_space # rs))"
proof -
  assume "dropWhile is_space xs \<in> lang (seq rs)"
  moreover have "xs = takeWhile is_space xs @ dropWhile is_space xs" by simp
  moreover have "list_all is_space (takeWhile is_space xs)"
    by (auto simp: list_all_iff dest: set_takeWhileD)
  ultimately show ?thesis unfolding rx_space_def in_seq_Star_Atom by blast
qed

lemma spaces1_in:
  "re_spaces1 xs = Some r \<Longrightarrow> r \<in> lang (seq rs) \<Longrightarrow> xs \<in> lang (seq (plus1 rx_space # rs))"
proof -
  assume a: "re_spaces1 xs = Some r" and r: "r \<in> lang (seq rs)"
  from a have "takeWhile is_space xs \<noteq> []" "r = dropWhile is_space xs"
    by (auto simp: re_spaces1_def split: if_splits)
  moreover have "xs = takeWhile is_space xs @ dropWhile is_space xs" by simp
  moreover have "list_all is_space (takeWhile is_space xs)"
    by (auto simp: list_all_iff dest: set_takeWhileD)
  ultimately show ?thesis using r unfolding rx_space_def in_seq_plus1_Atom by blast
qed

lemma ampm_in:
  "re_ampm xs = Some (ap, r) \<Longrightarrow> r \<in> lang (seq rs) \<Longrightarrow> xs \<in> lang (seq (rx_ampm # rs))"
  by (auto simp: re_ampm_def in_seq_ampm split: list.splits if_splits)

lemma sender_in:
  assumes "re_sender xs = Some (g, r)" "r \<in> lang (seq rs)"
  shows "xs \<in> lang (seq (Star rx_space # plus1 (Atom (\<lambda>c. c \<noteq> 58)) # lit 58 # rs))"
proof -
  let ?seg = "takeWhile (\<lambda>c. c \<noteq> 58) xs" and ?rest = "dropWhile (\<lambda>c. c \<noteq> 58) xs"
  from assms(1) have seg: "?seg \<noteq> []" and rest: "?rest \<noteq> []" and r: "r = tl ?rest"
    by (auto simp: re_sender_def Let_def split: if_splits)
  from rest have "\<not> hd ?rest \<noteq> 58" by (rule hd_dropWhile)
  with rest r have "?rest = 58 # r" by (cases ?rest) auto
  then have x: "xs = ?seg @ 58 # r" by (metis takeWhile_dropWhile_id)
  have a: "list_all (\<lambda>c. c \<noteq> 58) ?seg" by (auto simp: list_all_iff dest: set_takeWhileD)
  have "58 # r \<in> lang (seq (lit 58 # rs))" using assms(2) by (simp add: in_seq_lit)
  with seg a x have "xs \<in> lang (seq (plus1 (Atom (\<lambda>c. c \<noteq> 58)) # lit 58 # rs))"
    unfolding in_seq_plus1_Atom by blast
  moreover have "xs = [] @ xs" "list_all is_space []" by simp_all
  ultimately show ?thesis unfolding rx_space_def in_seq_Star_Atom by blast
qed

lemma body_in:
  assumes "re_body xs = Some g"
  shows "xs \<in> lang (seq [Star rx_space, Star (Atom (\<lambda>c. c \<noteq> 10)), opt (lit 10)])"
proof -
  define b where "b = dropWhile is_space xs"
  from assms have n: "10 \<notin> set (butlast b)"
    by (auto simp: re_body_def Let_def b_def [symmetric] split: if_splits)
  have "\<exists>t e. b = t @ e \<and> list_all (\<lambda>c. c \<noteq> 10) t \<and> (e = [] \<or> e = [10])"
  proof (cases "b \<noteq> [] \<and> last b = 10")
    case True
    then have "b = butlast b @ [10]" by (metis append_butlast_last_id)
    moreover have "list_all (\<lambda>c. c \<noteq> 10) (butlast b)" using n by (auto simp: list_all_iff)
    ultimately show ?thesis by blast
  next
    case False
    then have "10 \<notin> set b" using n by (cases b rule: rev_cases) auto
    then have "b = b @ [] \<and> list_all (\<lambda>c. c \<noteq> 10) b \<and> ([] = [] \<or> [] = [10::nat])"
      by (auto simp: list_all_iff)
    then show ?thesis by blast
  qed
  then obtain t e where "b = t @ e" "list_all (\<lambda>c. c \<noteq> 10) t" "e = [] \<or> e = [10]" by blast
  then have "b \<in> lang (seq [Star (Atom (\<lambda>c. c \<noteq> 10)), opt (lit 10)])"
    unfolding in_seq_Star_Atom in_seq_opt_lit_end by blast
  then show ?thesis unfolding b_def by (rule spaces_in)
qed

lemma match_in_lang:
  assumes "re_match_header line = Some g"
  shows "line \<in> lang header_rexp"
proof -
  from assms obtain d r1 r2 m r3 r4 y r5 r6 r7 h r8 r9 mi r10 ap r11 r12 g3 r13 g4 where
    s: "re_digits12 line = Some (d, r1)" "re_lit 47 r1 = Some r2"
      "re_digits12 r2 = Some (m, r3)" "re_lit 47 r3 = Some r4"
      "re_digits 4 r4 = Some (y, r5)" "re_lit 44 r5 = Some r6"
      "re_spaces1 r6 = Some r7" "re_digits12 r7 = Some (h, r8)"
      "re_lit 58 r8 = Some r9" "re_digits 2 r9 = Some (mi, r10)"
      "re_ampm (dropWhile is_space r10) = Some (ap, r11)"
      "re_lit 45 (dropWhile is_space r11) = Some r12"
      "re_sender r12 = Some (g3, r13)" "re_body r13 = Some g4"
    by (auto simp: re_match_header_def bind_eq_Some_conv)
  note t = body_in [OF s(14)]
  note t = sender_in [OF s(13) t]
  note t = spaces_in [OF lit_in [OF s(12) t]]
  note t = spaces_in [OF ampm_in [OF s(11) t]]
  note t = digits2_in [OF s(10) t]
  note t = lit_in [OF s(9) t]
  note t = digits12_in [OF s(8) t]
  note t = spaces1_in [OF s(7) t]
  note t = lit_in [OF s(6) t]
  note t = digits4_in [OF s(5) t]
  note t = lit_in [OF s(4) t]
  note t = digits12_in [OF s(3) t]
  note t = lit_in [OF s(2) t]
  note t = digits12_in [OF s(1) t]
  then show ?thesis by (simp only: header_rexp_def)
qed

text \<open>
  From the language to a successful match, piece by piece from the left.
\<close>

lemma digits12_step:
  assumes "xs \<in> lang (seq (rx_digit # opt rx_digit # lit c # rs))" "\<not> is_decimal c"
  shows "\<exists>d r. re_digits12 xs = Some (d, c # r) \<and> r \<in> lang (seq rs)"
  using assms by (auto simp: in_seq_digit in_seq_opt_digit in_seq_lit)

lemma digits2_step:
  assumes "xs \<in> lang (seq (rx_digit # rx_digit # rs))"
  shows "\<exists>d r. re_digits 2 xs = Some (d, r) \<and> r \<in> lang (seq rs)"
  using assms by (auto simp: in_seq_digit re_digits_def)

lemma digits4_step:
  assumes "xs \<in> lang (seq (rx_digit # rx_digit # rx_digit # rx_digit # rs))"
  shows "\<exists>d r. re_digits 4 xs = Some (d, r) \<and> r \<in> lang (seq rs)"
  using assms by (auto simp: in_seq_digit re_digits_def)

lemma lit_step:
  assumes "xs \<in> lang (seq (lit c # rs))"
  shows "\<exists>r. re_lit c xs = Some r \<and> r \<in> lang (seq rs)"
  using assms by (auto simp: in_seq_lit re_lit_def)

lemma spaces1_step:
  assumes "xs \<in> lang (seq (plus1 rx_space # rx_digit # rs))"
  shows "\<exists>r. re_spaces1 xs = Some r \<and> r \<in> lang (seq (rx_digit # rs))"
proof -
  from assms obtain u v where x: "xs = u @ v" and u: "u \<noteq> []" "list_all is_space u"
    and v: "v \<in> lang (seq (rx_digit # rs))"
    unfolding rx_space_def in_seq_plus1_Atom by blast
  from v have "v = [] \<or> \<not> is_space (hd v)" by (auto simp: in_seq_digit dest: decimal_not_space)
  with u(2) have "dropWhile is_space (u @ v) = v" "takeWhile is_space (u @ v) = u"
    by (rule spaces_split)+
  then show ?thesis using x u v by (simp add: re_spaces1_def)
qed

lemma spaces_ampm_step:
  assumes "xs \<in> lang (seq (Star rx_space # rx_ampm # rs))"
  shows "\<exists>ap r. re_ampm (dropWhile is_space xs) = Some (ap, r) \<and> r \<in> lang (seq rs)"
proof -
  from assms obtain u v where x: "xs = u @ v" and u: "list_all is_space u"
    and v: "v \<in> lang (seq (rx_ampm # rs))"
    unfolding rx_space_def in_seq_Star_Atom by blast
  from v have "v = [] \<or> \<not> is_space (hd v)" using class_facts by (auto simp: in_seq_ampm)
  with u have "dropWhile is_space (u @ v) = v" by (rule spaces_split)
  then show ?thesis using x v by (auto simp: in_seq_ampm re_ampm_def)
qed

lemma spaces_hyphen_step:
  assumes "xs \<in> lang (seq (Star rx_space # lit 45 # rs))"
  shows "\<exists>r. re_lit 45 (dropWhile is_space xs) = Some r \<and> r \<in> lang (seq rs)"
proof -
  from assms obtain u v where x: "xs = u @ v" and u: "list_all is_space u"
    and v: "v \<in> lang (seq (lit 45 # rs))"
    unfolding rx_space_def in_seq_Star_Atom by blast
  from v have "v = [] \<or> \<not> is_space (hd v)" using class_facts by (auto simp: in_seq_lit)
  with u have "dropWhile is_space (u @ v) = v" by (rule spaces_split)
  then show ?thesis using x v by (auto simp: in_seq_lit re_lit_def)
qed

lemma sender_step:
  assumes "xs \<in> lang (seq (Star rx_space # plus1 (Atom (\<lambda>c. c \<noteq> 58)) # lit 58 # rs))"
  shows "\<exists>g r. re_sender xs = Some (g, r) \<and> r \<in> lang (seq rs)"
proof -
  from assms obtain u v where x: "xs = u @ v" and u: "list_all is_space u"
    and v: "v \<in> lang (seq (plus1 (Atom (\<lambda>c. c \<noteq> 58)) # lit 58 # rs))"
    unfolding rx_space_def in_seq_Star_Atom by blast
  from v obtain s r where v': "v = s @ 58 # r" and s: "s \<noteq> []" "list_all (\<lambda>c. c \<noteq> 58) s"
    and r: "r \<in> lang (seq rs)"
    unfolding in_seq_plus1_Atom in_seq_lit by blast
  have "\<forall>c\<in>set (u @ s). c \<noteq> 58" using u s(2) class_facts(5) by (auto simp: list_all_iff)
  then have "takeWhile (\<lambda>c. c \<noteq> 58) ((u @ s) @ 58 # r) = u @ s"
    and "dropWhile (\<lambda>c. c \<noteq> 58) ((u @ s) @ 58 # r) = 58 # r"
    by (simp_all add: takeWhile_tail dropWhile_append3 del: append_assoc)
  then show ?thesis using x v' s(1) r by (simp add: re_sender_def Let_def)
qed

lemma butlast_dropWhile_subset: "set (butlast (dropWhile P ys)) \<subseteq> set (butlast ys)"
proof (cases "dropWhile P ys = []")
  case True
  have "set (butlast []) \<subseteq> set (butlast ys)" by simp
  then show ?thesis by (simp only: True)
next
  case False
  have "ys = takeWhile P ys @ dropWhile P ys" by simp
  then have "butlast ys = takeWhile P ys @ butlast (dropWhile P ys)"
    using False by (metis butlast_append)
  then show ?thesis by (metis Un_upper2 set_append)
qed

lemma body_step:
  assumes "xs \<in> lang (seq [Star rx_space, Star (Atom (\<lambda>c. c \<noteq> 10)), opt (lit 10)])"
  shows "\<exists>g. re_body xs = Some g"
proof -
  from assms obtain u v where x: "xs = u @ v" and u: "list_all is_space u"
    and v: "v \<in> lang (seq [Star (Atom (\<lambda>c. c \<noteq> 10)), opt (lit 10)])"
    unfolding rx_space_def in_seq_Star_Atom by blast
  from v obtain t e where v': "v = t @ e" and t: "list_all (\<lambda>c. c \<noteq> 10) t"
    and e: "e = [] \<or> e = [10]"
    unfolding in_seq_Star_Atom in_seq_opt_lit_end by blast
  have "set (butlast v) \<subseteq> set t" using v' e by (auto simp: butlast_append dest: in_set_butlastD)
  then have nv: "10 \<notin> set (butlast v)" using t by (auto simp: list_all_iff)
  have "dropWhile is_space (u @ v) = dropWhile is_space v"
    using u by (simp add: dropWhile_append2 list_all_iff)
  moreover have "10 \<notin> set (butlast (dropWhile is_space v))"
    using nv butlast_dropWhile_subset [of is_space v] by blast
  ultimately show ?thesis using x by (simp add: re_body_def Let_def)
qed

lemma lang_in_match:
  assumes "line \<in> lang header_rexp"
  shows "re_match_header line \<noteq> None"
proof -
  let ?T = "[Star rx_space, Star (Atom (\<lambda>c. c \<noteq> 10)), opt (lit 10)]"
  let ?S = "Star rx_space # plus1 (Atom (\<lambda>c. c \<noteq> 58)) # lit 58 # ?T"
  let ?H = "Star rx_space # lit 45 # ?S"
  let ?A = "Star rx_space # rx_ampm # ?H"
  let ?M = "rx_digit # rx_digit # ?A"
  let ?C = "rx_digit # opt rx_digit # lit 58 # ?M"
  let ?W = "plus1 rx_space # ?C"
  let ?K = "lit 44 # ?W"
  let ?Y = "rx_digit # rx_digit # rx_digit # rx_digit # ?K"
  let ?N = "rx_digit # opt rx_digit # lit 47 # ?Y"
  let ?D = "rx_digit # opt rx_digit # lit 47 # ?N"
  from assms have "line \<in> lang (seq ?D)" by (simp only: header_rexp_def)
  from digits12_step [OF this class_facts(1)]
  obtain d r2 where a1: "re_digits12 line = Some (d, 47 # r2)" and "r2 \<in> lang (seq ?N)" by blast
  from digits12_step [OF this(2) class_facts(1)]
  obtain m r4 where a2: "re_digits12 r2 = Some (m, 47 # r4)" and "r4 \<in> lang (seq ?Y)" by blast
  from digits4_step [OF this(2)]
  obtain y r5 where a3: "re_digits 4 r4 = Some (y, r5)" and "r5 \<in> lang (seq ?K)" by blast
  from lit_step [OF this(2)]
  obtain r6 where a4: "re_lit 44 r5 = Some r6" and "r6 \<in> lang (seq ?W)" by blast
  from spaces1_step [OF this(2)]
  obtain r7 where a5: "re_spaces1 r6 = Some r7" and "r7 \<in> lang (seq ?C)" by blast
  from digits12_step [OF this(2) class_facts(2)]
  obtain h r9 where a6: "re_digits12 r7 = Some (h, 58 # r9)" and "r9 \<in> lang (seq ?M)" by blast
  from digits2_step [OF this(2)]
  obtain mi r10 where a7: "re_digits 2 r9 = Some (mi, r10)" and "r10 \<in> lang (seq ?A)" by blast
  from spaces_ampm_step [OF this(2)]
  obtain ap r11 where a8: "re_ampm (dropWhile is_space r10) = Some (ap, r11)"
    and "r11 \<in> lang (seq ?H)" by blast
  from spaces_hyphen_step [OF this(2)]
  obtain r12 where a9: "re_lit 45 (dropWhile is_space r11) = Some r12"
    and "r12 \<in> lang (seq ?S)" by blast
  from sender_step [OF this(2)]
  obtain g3 r13 where a10: "re_sender r12 = Some (g3, r13)" and "r13 \<in> lang (seq ?T)" by blast
  from body_step [OF this(2)]
  obtain g4 where a11: "re_body r13 = Some g4" by blast
  have l: "re_lit 47 (47 # r2) = Some r2" "re_lit 47 (47 # r4) = Some r4"
    "re_lit 58 (58 # r9) = Some r9"
    by (simp_all add: re_lit_def)
  show ?thesis
    by (simp add: re_match_header_def a1 a2 a3 a4 a5 a6 a7 a8 a9 a10 a11 l)
qed

lemma is_header_iff_header_line: "is_header line \<longleftrightarrow> header_line line"
proof -
  have "re_match_header line \<noteq> None \<longleftrightarrow> line \<in> lang header_rexp"
  proof
    assume "re_match_header line \<noteq> None"
    then obtain g where "re_match_header line = Some g" by auto
    then show "line \<in> lang header_rexp" by (rule match_in_lang)
  next
    assume "line \<in> lang header_rexp"
    then show "re_match_header line \<noteq> None" by (rule lang_in_match)
  qed
  then show ?thesis by (simp only: is_header_def header_line_def rexp_matches_iff_lang)
qed

section \<open>Lines and the fields of a header line\<close>

lemma split_nl_line: "10 \<notin> set l \<Longrightarrow> split_nl (l @ 10 # rest) = l # split_nl rest"
  by (induction l) auto

lemma split_nl_join:
  "ls \<noteq> [] \<Longrightarrow> \<forall>l\<in>set ls. 10 \<notin> set l \<Longrightarrow> split_nl (join_nl ls) = ls"
proof (induction ls rule: join_nl.induct)
  case 1
  then show ?case by simp
next
  case (2 l)
  then show ?case by (simp add: split_nl_no_newline)
next
  case (3 l l' ls)
  then show ?case by (simp add: split_nl_line)
qed

lemma split_nl_lines: "split_nl s \<noteq> [] \<and> (\<forall>l\<in>set (split_nl s). 10 \<notin> set l)"
  by (induction s) (auto split: list.splits)

lemma join_split_nl: "join_nl (split_nl s) = s"
proof (induction s)
  case Nil
  then show ?case by simp
next
  case (Cons c s)
  obtain l ls where s: "split_nl s = l # ls" using split_nl_lines [of s] by (cases "split_nl s") auto
  show ?case
  proof (cases "c = 10")
    case True
    then show ?thesis using Cons s by simp
  next
    case False
    then show ?thesis using Cons s by (cases ls) auto
  qed
qed

lemma py_strip_padded:
  assumes "list_all is_space u" "list_all is_space w" "g \<noteq> []"
    "\<not> is_space (hd g)" "\<not> is_space (last g)"
  shows "py_strip (u @ g @ w) = g"
proof -
  have "dropWhile is_space (u @ (g @ w)) = g @ w"
    using assms(1) by (rule spaces_split) (use assms(3,4) in simp)
  moreover have "dropWhile is_space (rev w @ rev g) = rev g"
    by (rule spaces_split) (use assms in \<open>simp_all add: hd_rev\<close>)
  ultimately show ?thesis by (simp add: py_strip_def)
qed

lemma re_match_header_pieces:
  assumes "re_match_header line = Some (g1, g2, g3, g4)"
  obtains w1 w3 seg rest where
    "line = g1 @ 44 # w1 @ g2 @ w3 @ 45 # seg @ 58 # rest"
    "44 \<notin> set g1" "45 \<notin> set g1" "list_all is_space w1" "list_all is_space w3"
    "g2 \<noteq> []" "\<not> is_space (hd g2)" "\<not> is_space (last g2)" "45 \<notin> set g2"
    "58 \<notin> set seg" "py_strip g3 = py_strip seg" "py_strip g4 = py_strip rest"
proof -
  from assms obtain d r1 r2 m r3 r4 y r5 r6 r7 h r8 r9 mi r10 ap r11 r12 r13 where
    s: "re_digits12 line = Some (d, r1)" "re_lit 47 r1 = Some r2"
      "re_digits12 r2 = Some (m, r3)" "re_lit 47 r3 = Some r4"
      "re_digits 4 r4 = Some (y, r5)" "re_lit 44 r5 = Some r6"
      "re_spaces1 r6 = Some r7" "re_digits12 r7 = Some (h, r8)"
      "re_lit 58 r8 = Some r9" "re_digits 2 r9 = Some (mi, r10)"
      "re_ampm (dropWhile is_space r10) = Some (ap, r11)"
      "re_lit 45 (dropWhile is_space r11) = Some r12"
      "re_sender r12 = Some (g3, r13)" "re_body r13 = Some g4"
    and g: "g1 = d @ [47] @ m @ [47] @ y" "g2 = h @ [58] @ mi @ takeWhile is_space r10 @ ap"
    by (auto simp: re_match_header_def bind_eq_Some_conv)
  have dec: "list_all is_decimal d" "list_all is_decimal m" "list_all is_decimal y"
    "list_all is_decimal h" "list_all is_decimal mi" "h \<noteq> []"
    using s(1,3,5,8,10)
    by (auto simp: re_digits_def elim!: re_digits12.elims split: if_splits)
  have nd: "\<not> is_decimal 44" "\<not> is_decimal 45" using class_facts hyphen_class by simp_all
  have ap: "ap \<noteq> []" "\<not> is_space (last ap)" "45 \<notin> set ap"
    using s(11) class_facts by (auto simp: re_ampm_def is_space_def split: list.splits if_splits)
  define seg where "seg = takeWhile (\<lambda>c. c \<noteq> 58) r12"
  have seg: "seg \<noteq> []" "dropWhile (\<lambda>c. c \<noteq> 58) r12 \<noteq> []" "r13 = tl (dropWhile (\<lambda>c. c \<noteq> 58) r12)"
    and g3: "g3 = (if dropWhile is_space seg = [] then [last seg] else dropWhile is_space seg)"
    using s(13) by (auto simp: re_sender_def Let_def seg_def split: if_splits)
  from seg(2) have "\<not> hd (dropWhile (\<lambda>c. c \<noteq> 58) r12) \<noteq> 58" by (rule hd_dropWhile)
  with seg(2,3) have "dropWhile (\<lambda>c. c \<noteq> 58) r12 = 58 # r13"
    by (cases "dropWhile (\<lambda>c. c \<noteq> 58) r12") auto
  then have r12: "r12 = seg @ 58 # r13" unfolding seg_def by (metis takeWhile_dropWhile_id)
  have "line = d @ r1" using s(1) by (simp add: re_digits12_SomeD)
  also have "r1 = 47 # r2" using s(2) by (rule re_lit_SomeD)
  also have "r2 = m @ r3" using s(3) by (simp add: re_digits12_SomeD)
  also have "r3 = 47 # r4" using s(4) by (rule re_lit_SomeD)
  also have "r4 = y @ r5" using s(5) by (simp add: re_digits_SomeD)
  also have "r5 = 44 # r6" using s(6) by (rule re_lit_SomeD)
  also have "r6 = takeWhile is_space r6 @ r7" using s(7) by (rule re_spaces1_SomeD)
  also have "r7 = h @ r8" using s(8) by (simp add: re_digits12_SomeD)
  also have "r8 = 58 # r9" using s(9) by (rule re_lit_SomeD)
  also have "r9 = mi @ r10" using s(10) by (simp add: re_digits_SomeD)
  also have "r10 = takeWhile is_space r10 @ dropWhile is_space r10" by simp
  also have "dropWhile is_space r10 = ap @ r11" using s(11) by (simp add: re_ampm_SomeD)
  also have "r11 = takeWhile is_space r11 @ dropWhile is_space r11" by simp
  also have "dropWhile is_space r11 = 45 # r12" using s(12) by (rule re_lit_SomeD)
  also note r12
  finally have line: "line = g1 @ 44 # takeWhile is_space r6 @ g2 @ takeWhile is_space r11 @
      45 # seg @ 58 # r13"
    by (simp add: g)
  have sp: "list_all is_space (takeWhile is_space xs)" for xs
    by (auto simp: list_all_iff dest: set_takeWhileD)
  have g1: "44 \<notin> set g1" "45 \<notin> set g1"
    using dec nd by (auto simp: g list_all_iff)
  have g2: "g2 \<noteq> []" "\<not> is_space (hd g2)" "\<not> is_space (last g2)" "45 \<notin> set g2"
    using dec nd ap spaces_no_hyphen [of r10]
    by (auto simp: g list_all_iff hd_append dest: decimal_not_space)
  have c: "58 \<notin> set seg" unfolding seg_def by (auto dest: set_takeWhileD)
  have p3: "py_strip g3 = py_strip seg"
  proof (cases "dropWhile is_space seg = []")
    case True
    then have a: "list_all is_space seg" by (simp add: dropWhile_eq_Nil_conv list_all_iff)
    then have "is_space (last seg)" using seg(1) by (auto simp: list_all_iff)
    then have "py_strip [last seg] = []" by (simp add: py_strip_def)
    moreover have "py_strip seg = []" using a by (simp only: py_strip_eq_Nil_iff)
    moreover have "g3 = [last seg]" using g3 by (simp only: True refl if_True)
    ultimately show ?thesis by (simp only:)
  next
    case False
    have "g3 = dropWhile is_space seg" using g3 by (simp only: False if_False)
    then show ?thesis by (simp only: py_strip_dropWhile)
  qed
  have p4: "py_strip g4 = py_strip r13" using s(14) by (rule re_body_strip)
  from line g1 sp [of r6] sp [of r11] g2 c p3 p4 show ?thesis by (rule that)
qed

lemma first_of: "x \<notin> set p \<Longrightarrow> takeWhile (\<lambda>c. c \<noteq> x) (p @ x # r) = p"
  "x \<notin> set p \<Longrightarrow> dropWhile (\<lambda>c. c \<noteq> x) (p @ x # r) = x # r"
  by (induction p) auto

lemma header_fields:
  assumes "re_match_header line = Some (g1, g2, g3, g4)"
  shows "g1 = date_of line" "g2 = time_of line" "py_strip g3 = sender_of line"
    "py_strip g4 = py_strip (text_after_sender line)"
proof -
  from assms obtain w1 w3 seg rest where
    line: "line = g1 @ 44 # w1 @ g2 @ w3 @ 45 # seg @ 58 # rest"
    and p: "44 \<notin> set g1" "45 \<notin> set g1" "list_all is_space w1" "list_all is_space w3"
    "g2 \<noteq> []" "\<not> is_space (hd g2)" "\<not> is_space (last g2)" "45 \<notin> set g2"
    "58 \<notin> set seg" "py_strip g3 = py_strip seg" "py_strip g4 = py_strip rest"
    by (rule re_match_header_pieces)
  have h1: "45 \<notin> set (w1 @ g2 @ w3)"
    using p(3,4,8) hyphen_class(2) by (auto simp: list_all_iff)
  have h2: "45 \<notin> set (g1 @ 44 # w1 @ g2 @ w3)" using h1 p(2) by simp
  have l1: "line = g1 @ 44 # ((w1 @ g2 @ w3) @ 45 # seg @ 58 # rest)" using line by simp
  have l2: "line = (g1 @ 44 # w1 @ g2 @ w3) @ 45 # (seg @ 58 # rest)" using line by simp
  show "g1 = date_of line" unfolding date_of_def l1 by (simp only: first_of(1) [OF p(1)])
  have "tl (dropWhile (\<lambda>c. c \<noteq> 44) line) = (w1 @ g2 @ w3) @ 45 # seg @ 58 # rest"
    unfolding l1 by (simp only: first_of(2) [OF p(1)] list.sel)
  then have "time_of line = py_strip (w1 @ g2 @ w3)"
    unfolding time_of_def by (simp only: first_of(1) [OF h1])
  then show "g2 = time_of line"
    by (simp only: py_strip_padded [OF p(3) p(4) p(5) p(6) p(7)])
  have t: "tl (dropWhile (\<lambda>c. c \<noteq> 45) line) = seg @ 58 # rest"
    unfolding l2 by (simp only: first_of(2) [OF h2] list.sel)
  show "py_strip g3 = sender_of line"
    unfolding sender_of_def t by (simp only: first_of(1) [OF p(9)] p(10))
  show "py_strip g4 = py_strip (text_after_sender line)"
    unfolding text_after_sender_def t by (simp only: first_of(2) [OF p(9)] list.sel p(11))
qed

lemma started_by_belongs_to: "started_by m line \<Longrightarrow> belongs_to m line"
proof -
  assume a: "started_by m line"
  then obtain c where c: "header_message line = Some c" by (auto simp: started_by_def split: option.splits)
  then obtain g1 g2 g3 g4 where g: "re_match_header line = Some (g1, g2, g3, g4)"
    and c': "c = \<lparr>date = g1, time = g2, sender = py_strip g3, message = py_strip g4\<rparr>"
    by (auto simp: header_message_def)
  show ?thesis
    using a c header_fields [OF g] by (simp add: started_by_def belongs_to_def c')
qed

lemmas spec_count_eval =
  total_chars_def script_chars_def spec_countable_def bangla_char_def ustr_def is_space_def
  skipped_punctuation_def

section \<open>The properties\<close>

text \<open>
  C1. Every text is the join of exactly one non-empty list of lines without line feeds
  (\<open>join_split_nl\<close>, \<open>split_nl_lines\<close>, \<open>split_nl_join\<close>). For such a list, the
  messages \<open>parse_whatsapp_chat\<close> returns for the joined text correspond one to one, and
  in the same order, to the lines that match the header grammar \<open>header_rexp\<close>: each
  message has the date, time and sender read off its header line and a text that begins
  with the trimmed text of that line. In particular there are as many messages as header
  lines, however many other lines there are, and none comes from another line.
\<close>

theorem parse_one_message_per_header:
  assumes "ls \<noteq> []" and "\<forall>l\<in>set ls. 10 \<notin> set l"
  shows "list_all2 belongs_to (parse_whatsapp_chat (join_nl ls)) (filter header_line ls) \<and>
    length (parse_whatsapp_chat (join_nl ls)) = length (filter header_line ls)"
proof -
  have "is_header = header_line" by (rule ext) (rule is_header_iff_header_line)
  then have f: "filter is_header ls = filter header_line ls" by (simp only:)
  have "list_all2 started_by (parse_whatsapp_chat (join_nl ls)) (filter is_header ls)"
    using parse_from_None_started_by [of ls] assms
    by (simp add: parse_whatsapp_chat_def parse_lines_from split_nl_join)
  then have "list_all2 belongs_to (parse_whatsapp_chat (join_nl ls)) (filter header_line ls)"
    unfolding f by (rule list_all2_mono) (rule started_by_belongs_to)
  then show ?thesis by (simp add: list_all2_lengthD)
qed

text \<open>
  A header line, three lines that are no headers, and a second header line: two
  messages, belonging to the first and to the last line.
\<close>

theorem parse_one_message_per_header_witness:
  "join_nl [ustr ''1/2/2024, 9:05 am - Alice: one'', ustr ''  two  '', [], ustr ''three'',
      ustr ''2/2/2024, 9:06 PM - Bob: four''] = continuation_chat \<and>
   filter header_line [ustr ''1/2/2024, 9:05 am - Alice: one'', ustr ''  two  '', [],
      ustr ''three'', ustr ''2/2/2024, 9:06 PM - Bob: four''] =
     [ustr ''1/2/2024, 9:05 am - Alice: one'', ustr ''2/2/2024, 9:06 PM - Bob: four''] \<and>
   list_all2 belongs_to (parse_whatsapp_chat continuation_chat)
     [ustr ''1/2/2024, 9:05 am - Alice: one'', ustr ''2/2/2024, 9:06 PM - Bob: four''] \<and>
   length (parse_whatsapp_chat continuation_chat) = 2"
proof -
  let ?ls = "[ustr ''1/2/2024, 9:05 am - Alice: one'', ustr ''  two  '', [], ustr ''three'',
      ustr ''2/2/2024, 9:06 PM - Bob: four'']"
  have j: "join_nl ?ls = continuation_chat" by (simp add: continuation_chat_def)
  have n: "?ls \<noteq> []" by simp
  have l: "\<forall>l\<in>set ?ls. 10 \<notin> set l" by (simp add: ustr_def)
  have h: "header_line (ustr ''1/2/2024, 9:05 am - Alice: one'')"
    "\<not> header_line (ustr ''  two  '')" "\<not> header_line []" "\<not> header_line (ustr ''three'')"
    "header_line (ustr ''2/2/2024, 9:06 PM - Bob: four'')"
    unfolding is_header_iff_header_line [symmetric] is_header_def
    by (simp_all add: parser_eval)
  have f: "filter header_line ?ls =
     [ustr ''1/2/2024, 9:05 am - Alice: one'', ustr ''2/2/2024, 9:06 PM - Bob: four'']"
    using h by simp
  have "list_all2 belongs_to (parse_whatsapp_chat (join_nl ?ls)) (filter header_line ?ls) \<and>
    length (parse_whatsapp_chat (join_nl ?ls)) = length (filter header_line ?ls)"
    using n l by (rule parse_one_message_per_header)
  then have "list_all2 belongs_to (parse_whatsapp_chat continuation_chat)
     [ustr ''1/2/2024, 9:05 am - Alice: one'', ustr ''2/2/2024, 9:06 PM - Bob: four''] \<and>
    length (parse_whatsapp_chat continuation_chat) = 2"
    unfolding j f by simp
  with j f show ?thesis by (intro conjI) simp_all
qed

text \<open>
  C2. For a text that a machine can hold (fewer than \<open>2^54\<close> characters; a \<open>str\<close>
  takes at least a byte for each), that is not empty and not all whitespace, contains no
  system keyword and has at least one countable character, \<open>is_bangla_text\<close> returns
  true exactly when the exact ratio \<open>script_chars / total_chars\<close> is at least \<open>1/4\<close>:
  the rounding of the float quotient of the source cannot cross that threshold.
\<close>

theorem is_bangla_text_ratio:
  assumes "length text < 2 ^ 54" and "text \<noteq> []" and "\<not> list_all is_space text"
    and "\<not> has_system_keyword text" and "0 < total_chars text"
  shows "is_bangla_text text =
     Inr (1 / 4 \<le> (of_nat (script_chars text) / of_nat (total_chars text) :: rat))"
proof -
  have "countable_char = spec_countable"
    by (rule ext) (simp add: countable_char_iff spec_countable_def)
  then have c: "count_chars text = (int (script_chars text), int (total_chars text))"
    by (simp add: count_chars_eq script_chars_def total_chars_def)
  have "total_chars text \<le> length text" by (simp add: total_chars_def)
  with assms(1) have "int (total_chars text) < 2 ^ 54" by simp
  then have t: "1 / 4 \<le> round_binary64 (int (script_chars text)) (int (total_chars text)) \<longleftrightarrow>
      1 / 4 \<le> (of_int (int (script_chars text)) / of_int (int (total_chars text)) :: rat)"
    using assms(5) by (intro threshold_exact) simp_all
  have s: "py_strip text \<noteq> []" using assms(3) by (simp add: py_strip_eq_Nil_iff)
  show ?thesis using assms(4,5) s t by (simp add: is_bangla_text_eq c)
qed

text \<open>
  One Bangla letter among four countable characters is classified true, one among five
  false.
\<close>

theorem is_bangla_text_ratio_witness:
  "is_bangla_text (2453 # ustr ''xyz'') = Inr True \<and>
   script_chars (2453 # ustr ''xyz'') = 1 \<and> total_chars (2453 # ustr ''xyz'') = 4 \<and>
   is_bangla_text (2453 # ustr ''wxyz'') = Inr False \<and>
   script_chars (2453 # ustr ''wxyz'') = 1 \<and> total_chars (2453 # ustr ''wxyz'') = 5"
proof -
  have c4: "script_chars (2453 # ustr ''xyz'') = 1" "total_chars (2453 # ustr ''xyz'') = 4"
    by (simp_all add: spec_count_eval)
  have c5: "script_chars (2453 # ustr ''wxyz'') = 1" "total_chars (2453 # ustr ''wxyz'') = 5"
    by (simp_all add: spec_count_eval)
  have l4: "length (2453 # ustr ''xyz'') < 2 ^ 54" by (simp add: ustr_def)
  have l5: "length (2453 # ustr ''wxyz'') < 2 ^ 54" by (simp add: ustr_def)
  have e4: "2453 # ustr ''xyz'' \<noteq> []" by simp
  have e5: "2453 # ustr ''wxyz'' \<noteq> []" by simp
  have s4: "\<not> list_all is_space (2453 # ustr ''xyz'')" by (simp add: is_space_def)
  have s5: "\<not> list_all is_space (2453 # ustr ''wxyz'')" by (simp add: is_space_def)
  have k4: "\<not> has_system_keyword (2453 # ustr ''xyz'')"
    by (rule no_keyword_without_e) (simp_all add: ustr_def)
  have k5: "\<not> has_system_keyword (2453 # ustr ''wxyz'')"
    by (rule no_keyword_without_e) (simp_all add: ustr_def)
  have t4: "0 < total_chars (2453 # ustr ''xyz'')" by (simp add: c4)
  have t5: "0 < total_chars (2453 # ustr ''wxyz'')" by (simp add: c5)
  have "is_bangla_text (2453 # ustr ''xyz'') = Inr True"
    using is_bangla_text_ratio [OF l4 e4 s4 k4 t4] by (simp add: c4)
  moreover have "is_bangla_text (2453 # ustr ''wxyz'') = Inr False"
    using is_bangla_text_ratio [OF l5 e5 s5 k5 t5] by (simp add: c5)
  ultimately show ?thesis using c4 c5 by (intro conjI)
qed

text \<open>
  The bound on the length is what makes the float comparison exact: \<open>big_text\<close>, of
  \<open>2^54 + 1\<close> characters, has \<open>2^52\<close> Bangla letters, a ratio below \<open>1/4\<close>, and a
  quotient that rounds to the float \<open>0.25\<close>.
\<close>

lemma rounding_beyond_the_bound:
  "py_strip big_text \<noteq> [] \<and> \<not> has_system_keyword big_text \<and>
   0 < snd (count_chars big_text) \<and>
   is_bangla_text big_text = Inr True \<and>
   \<not> 1 / 4 \<le> (of_int (fst (count_chars big_text)) / of_int (snd (count_chars big_text)) :: rat)"
proof -
  have "is_bangla_text big_text = Inr True"
    using big_text_strip big_text_no_keyword
    by (simp add: is_bangla_text_eq big_text_counts big_round)
  moreover have "\<not> 1 / 4 \<le> (of_int (fst (count_chars big_text)) / of_int (snd (count_chars big_text)) :: rat)"
    by (simp add: big_text_counts)
  moreover have "0 < snd (count_chars big_text)" by (simp add: big_text_counts)
  ultimately show ?thesis using big_text_strip big_text_no_keyword by (intro conjI)
qed

text \<open>
  C3. Once a header line has started a message, the lines up to the next header line
  (or the end of the input) that are no headers and not blank are appended to the text of
  that message, each trimmed and preceded by a line feed, in their order; none is left
  out.
\<close>

theorem parse_continuation_lines:
  assumes "split_nl chat_text = pre @ [h] @ conts @ rest"
    and "re_match_header h = Some (g1, g2, g3, g4)"
    and "\<forall>l\<in>set conts. re_match_header l = None"
    and "rest = [] \<or> re_match_header (hd rest) \<noteq> None"
  shows "parse_whatsapp_chat chat_text =
     parse_lines pre @
     [\<lparr>date = g1, time = g2, sender = py_strip g3,
        message = py_strip g4 @ continuation_text conts\<rparr>] @
     parse_lines rest"
proof -
  let ?c = "\<lparr>date = g1, time = g2, sender = py_strip g3, message = py_strip g4\<rparr>"
  have c: "header_message h = Some ?c" using assms(2) by (simp add: header_message_def)
  have "parse_whatsapp_chat chat_text = parse_from None (pre @ h # (conts @ rest))"
    using assms(1) by (simp add: parse_whatsapp_chat_def parse_lines_from)
  also have "\<dots> = parse_from None pre @ parse_from (Some ?c) (conts @ rest)"
    using c by (rule parse_from_append_header)
  also have "parse_from (Some ?c) (conts @ rest) =
      parse_from (Some (?c\<lparr>message := message ?c @ continuation_text conts\<rparr>)) rest"
    using assms(3) by (rule parse_from_Some_other)
  also have "\<dots> = ?c\<lparr>message := message ?c @ continuation_text conts\<rparr> # parse_from None rest"
    using assms(4) by (rule parse_from_Some_closed)
  finally show ?thesis by (simp add: parse_lines_from)
qed

text \<open>
  A header line, a padded line, a blank line, a third line and the next header line: the
  text of the first message is \<open>one\<close>, \<open>two\<close>, \<open>three\<close> joined by line feeds.
\<close>

theorem parse_continuation_lines_witness:
  "split_nl continuation_chat =
     [] @ [ustr ''1/2/2024, 9:05 am - Alice: one''] @ [ustr ''  two  '', [], ustr ''three''] @
     [ustr ''2/2/2024, 9:06 PM - Bob: four''] \<and>
   re_match_header (ustr ''1/2/2024, 9:05 am - Alice: one'') =
     Some (ustr ''1/2/2024'', ustr ''9:05 am'', ustr ''Alice'', ustr ''one'') \<and>
   re_match_header (ustr ''  two  '') = None \<and> re_match_header [] = None \<and>
   re_match_header (ustr ''three'') = None \<and>
   re_match_header (hd [ustr ''2/2/2024, 9:06 PM - Bob: four'']) \<noteq> None \<and>
   parse_whatsapp_chat continuation_chat =
     parse_lines [] @
     [\<lparr>date = ustr ''1/2/2024'', time = ustr ''9:05 am'', sender = py_strip (ustr ''Alice''),
        message = py_strip (ustr ''one'') @
          continuation_text [ustr ''  two  '', [], ustr ''three'']\<rparr>] @
     parse_lines [ustr ''2/2/2024, 9:06 PM - Bob: four''] \<and>
   py_strip (ustr ''one'') @ continuation_text [ustr ''  two  '', [], ustr ''three''] =
     ustr ''one'' @ [10] @ ustr ''two'' @ [10] @ ustr ''three''"
proof -
  have s: "split_nl continuation_chat =
     [] @ [ustr ''1/2/2024, 9:05 am - Alice: one''] @ [ustr ''  two  '', [], ustr ''three''] @
     [ustr ''2/2/2024, 9:06 PM - Bob: four'']"
    by (simp add: continuation_chat_def ustr_def)
  have h: "re_match_header (ustr ''1/2/2024, 9:05 am - Alice: one'') =
     Some (ustr ''1/2/2024'', ustr ''9:05 am'', ustr ''Alice'', ustr ''one'')"
    by (simp add: parser_eval)
  have c1: "re_match_header (ustr ''  two  '') = None" by (simp add: parser_eval)
  have c2: "re_match_header [] = None" by (simp add: parser_eval)
  have c3: "re_match_header (ustr ''three'') = None" by (simp add: parser_eval)
  have c: "\<forall>l\<in>set [ustr ''  two  '', [], ustr ''three'']. re_match_header l = None"
    using c1 c2 c3 by simp
  have r: "re_match_header (hd [ustr ''2/2/2024, 9:06 PM - Bob: four'']) \<noteq> None"
    by (simp add: parser_eval)
  have r': "[ustr ''2/2/2024, 9:06 PM - Bob: four''] = [] \<or>
     re_match_header (hd [ustr ''2/2/2024, 9:06 PM - Bob: four'']) \<noteq> None"
    using r by (rule disjI2)
  have e: "py_strip (ustr ''one'') @ continuation_text [ustr ''  two  '', [], ustr ''three''] =
     ustr ''one'' @ [10] @ ustr ''two'' @ [10] @ ustr ''three''"
    by (simp add: continuation_text_def py_strip_def ustr_def is_space_def)
  from s h c1 c2 c3 r parse_continuation_lines [OF s h c r'] e show ?thesis by (intro conjI)
qed

text \<open>
  C4. If the lower-cased text contains the lower-cased form of any entry of
  \<open>system_keywords\<close>, \<open>is_bangla_text\<close> returns false, whatever the characters of
  the text: the keyword test comes before the count.
\<close>

theorem is_bangla_text_system_keyword:
  assumes "keyword \<in> set system_keywords"
    and "sublist (py_lower keyword) (py_lower text)"
  shows "is_bangla_text text = Inr False"
proof -
  have "has_system_keyword text" using assms by (auto simp: has_system_keyword_def list_ex_iff)
  then show ?thesis by (simp add: is_bangla_text_eq)
qed

text \<open>
  The media placeholder itself, and a Bangla word followed by \<open>LEFT\<close> in capitals.
\<close>

theorem is_bangla_text_system_keyword_witness:
  "ustr ''<Media omitted>'' \<in> set system_keywords \<and>
   sublist (py_lower (ustr ''<Media omitted>'')) (py_lower (ustr ''<Media omitted>'')) \<and>
   is_bangla_text (ustr ''<Media omitted>'') = Inr False \<and>
   sublist (py_lower (ustr ''left'')) (py_lower ([2453, 2503, 2478, 2472, 32] @ ustr ''LEFT'')) \<and>
   is_bangla_text ([2453, 2503, 2478, 2472, 32] @ ustr ''LEFT'') = Inr False"
proof -
  have k1: "ustr ''<Media omitted>'' \<in> set system_keywords" by (simp add: system_keywords_def)
  have s1: "sublist (py_lower (ustr ''<Media omitted>'')) (py_lower (ustr ''<Media omitted>''))"
    by simp
  have k2: "ustr ''left'' \<in> set system_keywords" by (simp add: system_keywords_def)
  have s2: "sublist (py_lower (ustr ''left'')) (py_lower ([2453, 2503, 2478, 2472, 32] @ ustr ''LEFT''))"
    by (simp add: classifier_eval sublist_code prefix_code)
  show ?thesis
    using k1 s1 s2 is_bangla_text_system_keyword [OF k1 s1] is_bangla_text_system_keyword [OF k2 s2]
    by (intro conjI)
qed

text \<open>
  C5. The round-trip scenario: the three-line log parses to two messages, the first
  from Alice with the two Bangla lines joined by a line feed, the second from Bob with
  the text \<open>hi\<close>; the classifier answers true for the first and false for the second.
\<close>

theorem round_trip_scenario:
  "parse_whatsapp_chat scenario_text =
     [\<lparr>date = ustr ''1/2/2024'', time = ustr ''9:05 am'', sender = ustr ''Alice'',
        message = [0x9B9, 0x9CD, 0x9AF, 0x9BE, 0x9B2, 0x9CB] @ [10] @
          [0x995, 0x9C7, 0x9AE, 0x9A8, 32, 0x986, 0x99B, 0x9C7, 0x9A8]\<rparr>,
      \<lparr>date = ustr ''2/2/2024'', time = ustr ''9:06 am'', sender = ustr ''Bob'',
        message = ustr ''hi''\<rparr>] \<and>
   map (\<lambda>msg. is_bangla_text (message msg)) (parse_whatsapp_chat scenario_text) =
     [Inr True, Inr False]"
proof -
  let ?alice = "[0x9B9, 0x9CD, 0x9AF, 0x9BE, 0x9B2, 0x9CB] @ [10] @
          [0x995, 0x9C7, 0x9AE, 0x9A8, 32, 0x986, 0x99B, 0x9C7, 0x9A8 :: nat]"
  have p: "parse_whatsapp_chat scenario_text =
     [\<lparr>date = ustr ''1/2/2024'', time = ustr ''9:05 am'', sender = ustr ''Alice'',
        message = ?alice\<rparr>,
      \<lparr>date = ustr ''2/2/2024'', time = ustr ''9:06 am'', sender = ustr ''Bob'',
        message = ustr ''hi''\<rparr>]"
    by (simp add: scenario_text_def parser_eval)
  have ca: "count_chars ?alice = (14, 14)" by (simp add: classifier_eval)
  have ka: "\<not> has_system_keyword ?alice" by (rule no_keyword_without_e) simp_all
  have sa: "py_strip ?alice \<noteq> []" by (simp add: py_strip_def is_space_def)
  have "1 / 4 \<le> round_binary64 14 14" by (rule round_binary64_ge_quarter) simp_all
  then have a: "is_bangla_text ?alice = Inr True"
    using ka sa by (simp only: is_bangla_text_eq ca fst_conv snd_conv) simp
  have cb: "count_chars (ustr ''hi'') = (0, 2)" by (simp add: classifier_eval)
  have b: "is_bangla_text (ustr ''hi'') = Inr False"
    by (simp add: is_bangla_text_eq cb round_binary64_def)
  show ?thesis using a b by (simp only: p list.map message.simps simp_thms)
qed

text \<open>
  C6. The text a header line gives its message is the remainder of the line after the
  first colon following the sender, trimmed of whitespace at both ends. This holds for
  the message under construction right after the line is scanned, and for the only
  message of an input that consists of that line.
\<close>

theorem header_text_stripped:
  assumes "re_match_header line = Some (g1, g2, g3, g4)"
  shows "(\<exists>m. snd (parse_step s line) = Some m \<and> message m = py_strip (text_after_sender line)) \<and>
    (10 \<notin> set line \<longrightarrow>
       map message (parse_whatsapp_chat line) = [py_strip (text_after_sender line)])"
proof -
  have t: "py_strip g4 = py_strip (text_after_sender line)"
    using assms by (rule re_match_header_text)
  have a: "\<exists>m. snd (parse_step s line) = Some m \<and> message m = py_strip (text_after_sender line)"
    using assms t by (simp add: parse_step_def)
  have "map message (parse_whatsapp_chat line) = [py_strip (text_after_sender line)]"
    if "10 \<notin> set line"
    using that assms t
    by (simp add: parse_whatsapp_chat_def split_nl_no_newline parse_lines_def parse_step_def
        parse_finish_def)
  with a show ?thesis by simp
qed

text \<open>
  A header line whose text has blanks on both sides.
\<close>

theorem header_text_stripped_witness:
  "re_match_header trailing_space_line =
     Some (ustr ''1/2/2024'', ustr ''9:05 am'', ustr ''Bob'', ustr ''hi there  '') \<and>
   10 \<notin> set trailing_space_line \<and>
   map message (parse_whatsapp_chat trailing_space_line) =
     [py_strip (text_after_sender trailing_space_line)] \<and>
   py_strip (text_after_sender trailing_space_line) = ustr ''hi there''"
proof -
  have h: "re_match_header trailing_space_line =
     Some (ustr ''1/2/2024'', ustr ''9:05 am'', ustr ''Bob'', ustr ''hi there  '')"
    by (simp add: trailing_space_line_def parser_eval)
  have n: "10 \<notin> set trailing_space_line" by (simp add: trailing_space_line_def ustr_def)
  have c: "map message (parse_whatsapp_chat trailing_space_line) =
     [py_strip (text_after_sender trailing_space_line)]"
    using header_text_stripped [OF h] n by blast
  have e: "py_strip (text_after_sender trailing_space_line) = ustr ''hi there''"
    by (simp add: trailing_space_line_def text_after_sender_def py_strip_def ustr_def is_space_def)
  from h n c e show ?thesis by (intro conjI)
qed

text \<open>
  Trimmed at the front only, the remainder of that line would keep its trailing blanks;
  the text of the message does not.
\<close>

theorem header_text_trailing_counterexample:
  "re_match_header trailing_space_line \<noteq> None \<and>
   map message (parse_whatsapp_chat trailing_space_line) = [ustr ''hi there''] \<and>
   dropWhile is_space (text_after_sender trailing_space_line) = ustr ''hi there  '' \<and>
   map message (parse_whatsapp_chat trailing_space_line) \<noteq>
     [dropWhile is_space (text_after_sender trailing_space_line)]"
  by (simp add: trailing_space_line_def parser_eval text_after_sender_def)

text \<open>
  C7. Lines that are no headers and come before the first header line leave no trace in
  the result: the input parses as if it began at the first header line, and an input
  without a header line parses to the empty list.
\<close>

theorem parse_drops_leading_lines:
  assumes "split_nl chat_text = pre @ rest"
    and "\<forall>l\<in>set pre. re_match_header l = None"
  shows "parse_whatsapp_chat chat_text = parse_lines rest \<and>
    (rest = [] \<longrightarrow> parse_whatsapp_chat chat_text = [])"
proof -
  have "parse_whatsapp_chat chat_text = parse_lines rest"
    using assms parse_from_None_other [of pre rest]
    by (simp add: parse_whatsapp_chat_def parse_lines_from)
  then show ?thesis by (auto simp: parse_lines_from parse_from_Nil open_message_def)
qed

text \<open>
  Two banner lines before a header line, and the two banner lines alone.
\<close>

theorem parse_drops_leading_lines_witness:
  "split_nl banner_chat =
     [ustr ''Chat export'', ustr ''with Bob''] @ [ustr ''2/2/2024, 9:06 PM - Bob: four''] \<and>
   re_match_header (ustr ''Chat export'') = None \<and> re_match_header (ustr ''with Bob'') = None \<and>
   parse_whatsapp_chat banner_chat = parse_lines [ustr ''2/2/2024, 9:06 PM - Bob: four''] \<and>
   split_nl (ustr ''Chat export'' @ [10] @ ustr ''with Bob'') =
     [ustr ''Chat export'', ustr ''with Bob''] @ [] \<and>
   parse_whatsapp_chat (ustr ''Chat export'' @ [10] @ ustr ''with Bob'') = []"
proof -
  have s: "split_nl banner_chat =
     [ustr ''Chat export'', ustr ''with Bob''] @ [ustr ''2/2/2024, 9:06 PM - Bob: four'']"
    by (simp add: banner_chat_def ustr_def)
  have n1: "re_match_header (ustr ''Chat export'') = None" by (simp add: parser_eval)
  have n2: "re_match_header (ustr ''with Bob'') = None" by (simp add: parser_eval)
  have n: "\<forall>l\<in>set [ustr ''Chat export'', ustr ''with Bob'']. re_match_header l = None"
    using n1 n2 by simp
  have s2: "split_nl (ustr ''Chat export'' @ [10] @ ustr ''with Bob'') =
     [ustr ''Chat export'', ustr ''with Bob''] @ []"
    by (simp add: ustr_def)
  have a: "parse_whatsapp_chat banner_chat = parse_lines [ustr ''2/2/2024, 9:06 PM - Bob: four'']"
    using parse_drops_leading_lines [OF s n] by (rule conjunct1)
  have b: "parse_whatsapp_chat (ustr ''Chat export'' @ [10] @ ustr ''with Bob'') = []"
    using parse_drops_leading_lines [OF s2 n] by blast
  from s n1 n2 a s2 b show ?thesis by (intro conjI)
qed

text \<open>
  C8. \<open>is_bangla_text\<close> returns false for every text all of whose characters are
  whitespace or in the skipped punctuation, the empty text and the all-whitespace texts
  among them.
\<close>

theorem is_bangla_text_skipped_only:
  assumes "\<forall>c\<in>set text. is_space c \<or> c \<in> set skipped_punctuation"
  shows "is_bangla_text text = Inr False"
proof -
  have "filter countable_char text = []"
    using assms by (auto simp: filter_empty_conv countable_char_iff)
  then show ?thesis by (simp add: is_bangla_text_eq count_chars_eq)
qed

text \<open>
  The empty text, three blanks, and a text of punctuation and blanks.
\<close>

theorem is_bangla_text_skipped_only_witness:
  "is_bangla_text [] = Inr False \<and> is_bangla_text (ustr ''   '') = Inr False \<and>
   is_bangla_text (ustr ''?! ... :-)'') = Inr False"
proof -
  have a: "\<forall>c\<in>set []. is_space c \<or> c \<in> set skipped_punctuation" by simp
  have b: "\<forall>c\<in>set (ustr ''   ''). is_space c \<or> c \<in> set skipped_punctuation"
    by (simp add: classifier_eval)
  have c: "\<forall>c\<in>set (ustr ''?! ... :-)''). is_space c \<or> c \<in> set skipped_punctuation"
    by (simp add: classifier_eval)
  show ?thesis
    using is_bangla_text_skipped_only [OF a] is_bangla_text_skipped_only [OF b]
      is_bangla_text_skipped_only [OF c]
    by (intro conjI)
qed

text \<open>
  C9. \<open>is_bangla_text\<close> returns a boolean for every text: neither the division by
  zero nor the overflow of the true division is ever reached. When \<open>total_chars\<close> is
  zero the result is false, without dividing.
\<close>

theorem is_bangla_text_total:
  "(\<exists>b. is_bangla_text text = Inr b) \<and>
   (snd (count_chars text) = 0 \<longrightarrow> is_bangla_text text = Inr False)"
  by (simp add: is_bangla_text_eq)

text \<open>
  A text of two punctuation marks has no countable character.
\<close>

theorem is_bangla_text_total_witness:
  "snd (count_chars (ustr ''?!'')) = 0 \<and> is_bangla_text (ustr ''?!'') = Inr False"
proof -
  have h: "snd (count_chars (ustr ''?!'')) = 0" by (simp add: classifier_eval)
  have "is_bangla_text (ustr ''?!'') = Inr False"
    using is_bangla_text_total [of "ustr ''?!''"] h by blast
  with h show ?thesis by (rule conjI)
qed

text \<open>
  C10. \<open>filter_bangla_messages\<close> returns, in their order and unchanged, exactly the
  messages whose text \<open>is_bangla_text\<close> classifies true.
\<close>

theorem filter_bangla_messages_filter:
  "filter_bangla_messages messages =
     Inr (filter (\<lambda>msg. is_bangla_text (message msg) = Inr True) messages)"
  by (simp add: filter_bangla_messages_def filter_loop_eq)

end
